theory Spec2Isabelle
  imports Complex_Main "HOL-Library.Log_Nat"
begin

section \<open>Python values and errors\<close>

text \<open>
  Every \<^verbatim>\<open>assert\<close> and every exception the library calls can raise is a value of
  \<open>error\<close>; a function that can raise returns \<open>error + 'a\<close>.
\<close>

datatype error = AssertionError | ValueError | IndexError | OverflowError | ZeroDivisionError

section \<open>Binary64 arithmetic\<close>

text \<open>
  A Python \<^verbatim>\<open>float\<close> is an IEEE 754 binary64 number, modelled by the rational number it
  denotes. \<open>fl x\<close> is the binary64 number nearest to \<open>x\<close>, ties to the even significand:
  with \<open>e = ilog2 \<bar>x\<bar>\<close> the binary exponent of \<open>x\<close>, the spacing of the binary64
  numbers around \<open>x\<close> is \<open>2 powi (e - 52)\<close>, and never below \<open>2 powi (-1074)\<close>
  (the subnormal range); \<open>ulp_exponent x\<close> is the exponent of that spacing. \<open>fl\<close> has no largest exponent; the operations that use it
  test for overflow themselves.
\<close>

definition ilog2 :: "rat \<Rightarrow> int" where
  "ilog2 x =
     (if 1 \<le> x then int (floorlog 2 (nat \<lfloor>x\<rfloor>)) - 1
      else - int (floorlog 2 (nat (\<lceil>1 / x\<rceil> - 1))))"

definition rne :: "rat \<Rightarrow> int" where
  "rne x =
     (let f = \<lfloor>x\<rfloor>; d = x - of_int f
      in if d < 1 / 2 then f
         else if 1 / 2 < d then f + 1
         else if even f then f else f + 1)"

definition ulp_exponent :: "rat \<Rightarrow> int" where
  "ulp_exponent x = max (ilog2 \<bar>x\<bar> - 52) (- 1074)"

definition fl :: "rat \<Rightarrow> rat" where
  "fl x =
     (if x = 0 then 0
      else of_int (rne (x / 2 powi ulp_exponent x)) * 2 powi ulp_exponent x)"

text \<open>
  \<^verbatim>\<open>a / b\<close> on two Python ints: the correctly rounded quotient, \<^verbatim>\<open>ZeroDivisionError\<close>
  for a zero divisor, \<^verbatim>\<open>OverflowError\<close> when the quotient is too large for a float.
\<close>

definition py_truediv :: "int \<Rightarrow> int \<Rightarrow> error + rat" where
  "py_truediv a b =
     (if b = 0 then Inl ZeroDivisionError
      else let r = fl (of_int a / of_int b)
           in if 2 ^ 1024 \<le> \<bar>r\<bar> then Inl OverflowError else Inr r)"

text \<open>\<^verbatim>\<open>int(r)\<close> on a float: truncation towards zero.\<close>

definition int_of_float :: "rat \<Rightarrow> int" where
  "int_of_float r = (if 0 \<le> r then \<lfloor>r\<rfloor> else \<lceil>r\<rceil>)"

text \<open>\<^verbatim>\<open>int(a / b)\<close>, as \<^verbatim>\<open>get_rate\<close> writes it twice.\<close>

definition int_truediv :: "int \<Rightarrow> int \<Rightarrow> error + int" where
  "int_truediv a b =
     (case py_truediv a b of Inl e \<Rightarrow> Inl e | Inr r \<Rightarrow> Inr (int_of_float r))"

text \<open>\<^verbatim>\<open>min(xs)\<close>: \<^verbatim>\<open>ValueError\<close> on the empty list.\<close>

definition py_min :: "int list \<Rightarrow> error + int" where
  "py_min xs = (case xs of [] \<Rightarrow> Inl ValueError | y # ys \<Rightarrow> Inr (fold min ys y))"

section \<open>\<^verbatim>\<open>get_rate\<close>\<close>

text \<open>
  \<^verbatim>\<open>
  rate_c = []
  resto = N
  for j in range(2, k+2):
      rate_c.append(int(resto/j))
      resto = N - sum(rate_c)
  \<close>
  The loop runs over the list of the values of \<open>j\<close>, carrying \<open>rate_c\<close> and \<open>resto\<close>.
\<close>

fun rate_loop :: "int \<Rightarrow> int list \<Rightarrow> int list \<Rightarrow> int \<Rightarrow> error + int list" where
  "rate_loop N [] rate_c resto = Inr rate_c"
| "rate_loop N (j # js) rate_c resto =
     (case int_truediv resto j of
        Inl e \<Rightarrow> Inl e
      | Inr q \<Rightarrow> rate_loop N js (rate_c @ [q]) (N - sum_list (rate_c @ [q])))"

text \<open>
  \<^verbatim>\<open>rate_s = [int(sum(rate_c)/k) for i in range(k)]\<close>: the same quotient, once for each
  \<open>i\<close>; \<open>range(k)\<close> is empty for \<open>k \<le> 0\<close>, and then nothing is divided.
\<close>

definition uniform_plan :: "int list \<Rightarrow> int \<Rightarrow> error + int list" where
  "uniform_plan rate_c k =
     (if k \<le> 0 then Inr []
      else case int_truediv (sum_list rate_c) k of
             Inl e \<Rightarrow> Inl e
           | Inr s \<Rightarrow> Inr (replicate (nat k) s))"

text \<open>
  \<^verbatim>\<open>assert (min(rate_s) and min(rate_c)) >= n_min\<close>: Python's \<^verbatim>\<open>and\<close> yields its left
  operand when that is zero and its right operand otherwise; the right operand is not
  evaluated in the first case.
\<close>

definition rate_check :: "int list \<Rightarrow> int list \<Rightarrow> int \<Rightarrow> error + bool" where
  "rate_check rate_s rate_c n_min =
     (case py_min rate_s of
        Inl e \<Rightarrow> Inl e
      | Inr ms \<Rightarrow>
          if ms = 0 then Inr (n_min \<le> ms)
          else (case py_min rate_c of Inl e \<Rightarrow> Inl e | Inr mc \<Rightarrow> Inr (n_min \<le> mc)))"

text \<open>
  The two plans, before the final assertion: \<^verbatim>\<open>rate_s\<close> (every entry the same) and
  \<^verbatim>\<open>rate_c\<close> (the loop's list), in the order of \<^verbatim>\<open>rate=[rate_s, rate_c]\<close>.
\<close>

definition rate_plans :: "int \<Rightarrow> int \<Rightarrow> error + int list \<times> int list" where
  "rate_plans N k =
     (case rate_loop N [2..k + 1] [] N of
        Inl e \<Rightarrow> Inl e
      | Inr rate_c \<Rightarrow>
          (case uniform_plan rate_c k of
             Inl e \<Rightarrow> Inl e
           | Inr rate_s \<Rightarrow> Inr (rate_s, rate_c)))"

definition get_rate :: "int \<Rightarrow> int \<Rightarrow> int \<Rightarrow> error + int list list" where
  "get_rate N k n_min =
     (if \<not> 1 < N then Inl AssertionError
      else if \<not> 1 < k then Inl AssertionError
      else case rate_plans N k of
             Inl e \<Rightarrow> Inl e
           | Inr (rate_s, rate_c) \<Rightarrow>
               (case rate_check rate_s rate_c n_min of
                  Inl e \<Rightarrow> Inl e
                | Inr ok \<Rightarrow> if ok then Inr [rate_s, rate_c] else Inl AssertionError))"

section \<open>The rate plans as the specification words them\<close>

text \<open>
  The specification's declining plan: for \<open>j\<close> from 2 to \<open>k + 1\<close> the next count is
  \<open>\<lfloor>remaining / j\<rfloor>\<close>, where \<open>remaining\<close> starts at \<open>N\<close> and is then \<open>N\<close> minus the sum
  of the counts assigned so far. Its uniform plan gives every cluster
  \<open>\<lfloor>sum (declining plan) / k\<rfloor>\<close>. Both are written with exact integer division, to be
  compared with what \<^verbatim>\<open>get_rate\<close> computes.
\<close>

fun declining_spec :: "int \<Rightarrow> int list \<Rightarrow> int list \<Rightarrow> int \<Rightarrow> int list" where
  "declining_spec N [] plan remaining = plan"
| "declining_spec N (j # js) plan remaining =
     declining_spec N js (plan @ [remaining div j]) (N - sum_list (plan @ [remaining div j]))"

definition uniform_spec :: "int list \<Rightarrow> int \<Rightarrow> int list" where
  "uniform_spec plan k = replicate (nat k) (sum_list plan div k)"

section \<open>Arguments of the generators\<close>

text \<open>
  The generators test the exact type of their numeric arguments
  (\<^verbatim>\<open>type(n_feat) == int\<close>, \<^verbatim>\<open>type(eps) == float\<close>), so a numeric argument carries its
  type. A finite float is the rational it denotes; a non-finite float fails every range
  test the way an out-of-range float does, and a value of any other type fails the type
  test the way a number of the other type does. \<^verbatim>\<open>rate\<close> and \<^verbatim>\<open>feat_sig\<close> are lists of
  ints.
\<close>

datatype pynum = PyInt int | PyFloat rat

text \<open>
  \<^verbatim>\<open>random_state\<close>: \<^verbatim>\<open>None\<close>, an int, a \<^verbatim>\<open>RandomState\<close> instance (its state), or an
  object of another type.
\<close>

datatype 'g random_state_arg = NoneState | IntSeed int | Generator 'g | OtherObject

section \<open>The random source and the numeric library\<close>

text \<open>
  \<^verbatim>\<open>numpy.random.RandomState\<close>, \<^verbatim>\<open>scipy.stats.norm.cdf\<close>, \<^verbatim>\<open>math.sqrt\<close> and the matrix
  product are library code. They are parameters of the model: a record of functions on
  the generator state \<open>'g\<close>, each returning what it draws and the next state.
  \<open>library_ok\<close> is what their documentation promises about shapes and ranges; a Beta
  sample lies in the closed interval \<open>[0, 1]\<close>.
\<close>

record 'g library =
  seed_generator :: "int \<Rightarrow> 'g"
  gen_normal :: "'g \<Rightarrow> nat \<Rightarrow> nat \<Rightarrow> rat list list \<times> 'g"
  gen_choice :: "'g \<Rightarrow> nat \<Rightarrow> nat \<Rightarrow> nat list \<times> 'g"
  gen_binomial :: "'g \<Rightarrow> rat \<Rightarrow> nat \<Rightarrow> int list \<times> 'g"
  gen_random_sample :: "'g \<Rightarrow> rat \<times> 'g"
  gen_beta :: "'g \<Rightarrow> rat \<Rightarrow> rat \<Rightarrow> rat \<times> 'g"
  matmul_row :: "rat list \<Rightarrow> rat list list \<Rightarrow> rat list"
  norm_cdf :: "rat \<Rightarrow> rat"
  float_sqrt :: "rat \<Rightarrow> rat"

definition library_ok :: "'g library \<Rightarrow> bool" where
  "library_ok lib \<longleftrightarrow>
     (\<forall>g r c. length (fst (gen_normal lib g r c)) = r
        \<and> (\<forall>row\<in>set (fst (gen_normal lib g r c)). length row = c))
   \<and> (\<forall>g n k. k \<le> n \<longrightarrow>
        length (fst (gen_choice lib g n k)) = k
        \<and> distinct (fst (gen_choice lib g n k))
        \<and> (\<forall>i\<in>set (fst (gen_choice lib g n k)). i < n))
   \<and> (\<forall>g p n. length (fst (gen_binomial lib g p n)) = n
        \<and> (\<forall>v\<in>set (fst (gen_binomial lib g p n)). v = 0 \<or> v = 1))
   \<and> (\<forall>g. 0 \<le> fst (gen_random_sample lib g) \<and> fst (gen_random_sample lib g) < 1)
   \<and> (\<forall>g a b. 0 \<le> fst (gen_beta lib g a b) \<and> fst (gen_beta lib g a b) \<le> 1)
   \<and> (\<forall>A W c. W \<noteq> [] \<longrightarrow> length A = length W \<longrightarrow> (\<forall>row\<in>set W. length row = c) \<longrightarrow>
        length (matmul_row lib A W) = c)"

text \<open>
  A generator state is paired with the log of the draws made so far. The log is not in
  the source: it records which method was called, with which sizes, in which order, so
  that the order of the draws can be stated.
\<close>

datatype draw = Normal nat nat | Choice nat nat | Binomial nat | RandomSample | Beta

type_synonym 'g rng = "'g \<times> draw list"

text \<open>
  The methods of \<^verbatim>\<open>RandomState\<close> as the generators call them, with the argument checks
  that make them raise \<^verbatim>\<open>ValueError\<close>: a negative dimension, a sample larger than the
  population when \<^verbatim>\<open>replace=False\<close>, a probability outside \<open>[0, 1]\<close>, a shape parameter
  that is not positive.
\<close>

definition rs_normal ::
  "'g library \<Rightarrow> 'g rng \<Rightarrow> int \<Rightarrow> int \<Rightarrow> error + rat list list \<times> 'g rng" where
  "rs_normal lib rs r c =
     (if r < 0 \<or> c < 0 then Inl ValueError
      else case gen_normal lib (fst rs) (nat r) (nat c) of
             (m, g) \<Rightarrow> Inr (m, (g, snd rs @ [Normal (nat r) (nat c)])))"

definition rs_choice ::
  "'g library \<Rightarrow> 'g rng \<Rightarrow> int \<Rightarrow> int \<Rightarrow> error + nat list \<times> 'g rng" where
  "rs_choice lib rs n sz =
     (if sz < 0 \<or> n < sz then Inl ValueError
      else case gen_choice lib (fst rs) (nat n) (nat sz) of
             (idx, g) \<Rightarrow> Inr (idx, (g, snd rs @ [Choice (nat n) (nat sz)])))"

definition rs_binomial ::
  "'g library \<Rightarrow> 'g rng \<Rightarrow> rat \<Rightarrow> int \<Rightarrow> error + int list \<times> 'g rng" where
  "rs_binomial lib rs p n =
     (if p < 0 \<or> 1 < p \<or> n < 0 then Inl ValueError
      else case gen_binomial lib (fst rs) p (nat n) of
             (vs, g) \<Rightarrow> Inr (vs, (g, snd rs @ [Binomial (nat n)])))"

definition rs_random_sample :: "'g library \<Rightarrow> 'g rng \<Rightarrow> rat \<times> 'g rng" where
  "rs_random_sample lib rs =
     (case gen_random_sample lib (fst rs) of (u, g) \<Rightarrow> (u, (g, snd rs @ [RandomSample])))"

definition rs_beta :: "'g library \<Rightarrow> 'g rng \<Rightarrow> rat \<Rightarrow> rat \<Rightarrow> error + rat \<times> 'g rng" where
  "rs_beta lib rs a b =
     (if a \<le> 0 \<or> b \<le> 0 then Inl ValueError
      else case gen_beta lib (fst rs) a b of (x, g) \<Rightarrow> Inr (x, (g, snd rs @ [Beta])))"

text \<open>
  \<^verbatim>\<open>
  if random_state is None:
      random_state = RandomState()
  elif type(random_state) == int:
      random_state = RandomState(random_state)
  else:
      assert type(random_state) == RandomState
  \<close>
  \<^verbatim>\<open>RandomState()\<close> seeds itself from the operating system: the state it starts in is
  the argument \<open>entropy\<close> of the model. \<^verbatim>\<open>RandomState(seed)\<close> raises \<^verbatim>\<open>ValueError\<close> unless
  \<open>0 \<le> seed < 2 ^ 32\<close>.
\<close>

definition resolve_random_state ::
  "'g library \<Rightarrow> 'g \<Rightarrow> 'g random_state_arg \<Rightarrow> error + 'g rng" where
  "resolve_random_state lib entropy random_state =
     (case random_state of
        NoneState \<Rightarrow> Inr (entropy, [])
      | IntSeed s \<Rightarrow>
          if 0 \<le> s \<and> s < 2 ^ 32 then Inr (seed_generator lib s, []) else Inl ValueError
      | Generator g \<Rightarrow> Inr (g, [])
      | OtherObject \<Rightarrow> Inl AssertionError)"

text \<open>
  \<^verbatim>\<open>float(n)\<close>, implicit when an int meets a float in \<^verbatim>\<open>*\<close>, \<^verbatim>\<open>+\<close> or \<^verbatim>\<open>-\<close>:
  \<^verbatim>\<open>OverflowError\<close> when the int is too large.
\<close>

definition float_of_int :: "int \<Rightarrow> error + rat" where
  "float_of_int n = (if 2 ^ 1024 \<le> \<bar>fl (of_int n)\<bar> then Inl OverflowError else Inr (fl (of_int n)))"

section \<open>\<^verbatim>\<open>catbird\<close>\<close>

text \<open>\<^verbatim>\<open>discretize = np.vectorize(lambda x, thr: 1 if x < thr else 0)\<close>, on one entry.\<close>

definition discretize :: "rat \<Rightarrow> rat \<Rightarrow> int" where
  "discretize x thr = (if x < thr then 1 else 0)"

text \<open>\<^verbatim>\<open>result[idx] = values\<close>: the positions in \<^verbatim>\<open>idx\<close> are overwritten, in order.\<close>

fun assign_at :: "'a list \<Rightarrow> nat list \<Rightarrow> 'a list \<Rightarrow> 'a list" where
  "assign_at result (i # idx) (v # vs) = assign_at (result[i := v]) idx vs"
| "assign_at result idx vs = result"

text \<open>
  One example of a cluster with \<open>f\<close> significant features:
  \<^verbatim>\<open>
  A = random_state.normal(0, 1, (1, feat_sig[i]))
  A_W = A @ W
  A_W_norm = norm.cdf(A_W / math.sqrt(feat_sig[i]))
  result = random_state.binomial(1, eps, n_feat)
  result[idx] = discretize(A_W_norm, lmbd)
  \<close>
  \<^verbatim>\<open>np.vectorize\<close> raises \<^verbatim>\<open>ValueError\<close> on an input of size 0, that is when \<open>f = 0\<close>.
\<close>

definition catbird_example ::
  "'g library \<Rightarrow> 'g rng \<Rightarrow> int \<Rightarrow> int \<Rightarrow> rat list list \<Rightarrow> nat list \<Rightarrow> rat \<Rightarrow> rat
     \<Rightarrow> error + int list \<times> 'g rng" where
  "catbird_example lib rs n_feat f W idx lmbd eps =
     (case rs_normal lib rs 1 f of
        Inl e \<Rightarrow> Inl e
      | Inr (A, rs1) \<Rightarrow>
          let A_W = matmul_row lib (hd A) W;
              A_W_norm = map (\<lambda>x. norm_cdf lib (fl (x / float_sqrt lib (of_int f)))) A_W
          in (case rs_binomial lib rs1 eps n_feat of
                Inl e \<Rightarrow> Inl e
              | Inr (result, rs2) \<Rightarrow>
                  if f = 0 then Inl ValueError
                  else Inr (assign_at result idx (map (\<lambda>x. discretize x lmbd) A_W_norm), rs2)))"

text \<open>\<^verbatim>\<open>for j in range(rate[i])\<close>: the examples of one cluster, in order.\<close>

fun catbird_examples ::
  "'g library \<Rightarrow> nat \<Rightarrow> 'g rng \<Rightarrow> int \<Rightarrow> int \<Rightarrow> rat list list \<Rightarrow> nat list \<Rightarrow> rat \<Rightarrow> rat
     \<Rightarrow> error + int list list \<times> 'g rng" where
  "catbird_examples lib 0 rs n_feat f W idx lmbd eps = Inr ([], rs)"
| "catbird_examples lib (Suc m) rs n_feat f W idx lmbd eps =
     (case catbird_example lib rs n_feat f W idx lmbd eps of
        Inl e \<Rightarrow> Inl e
      | Inr (row, rs1) \<Rightarrow>
          (case catbird_examples lib m rs1 n_feat f W idx lmbd eps of
             Inl e \<Rightarrow> Inl e
           | Inr (rows, rs2) \<Rightarrow> Inr (row # rows, rs2)))"

text \<open>
  One cluster: the projection matrix \<^verbatim>\<open>W\<close>, the index subset \<^verbatim>\<open>idx\<close>, then the examples.
\<close>

definition catbird_cluster ::
  "'g library \<Rightarrow> 'g rng \<Rightarrow> int \<Rightarrow> int \<Rightarrow> int \<Rightarrow> rat \<Rightarrow> rat
     \<Rightarrow> error + int list list \<times> 'g rng" where
  "catbird_cluster lib rs n_feat f m lmbd eps =
     (case rs_normal lib rs f f of
        Inl e \<Rightarrow> Inl e
      | Inr (W, rs1) \<Rightarrow>
          (case rs_choice lib rs1 n_feat f of
             Inl e \<Rightarrow> Inl e
           | Inr (idx, rs2) \<Rightarrow> catbird_examples lib (nat m) rs2 n_feat f W idx lmbd eps))"

text \<open>
  \<^verbatim>\<open>for i in range(len(rate))\<close>: cluster \<open>i\<close> reads \<^verbatim>\<open>feat_sig[i]\<close> (\<^verbatim>\<open>IndexError\<close> when
  \<^verbatim>\<open>feat_sig\<close> is shorter) and labels its examples \<open>i\<close>, the value of \<^verbatim>\<open>q\<close>.
\<close>

fun catbird_clusters ::
  "'g library \<Rightarrow> 'g rng \<Rightarrow> int \<Rightarrow> int list \<Rightarrow> int list \<Rightarrow> rat \<Rightarrow> rat \<Rightarrow> nat list
     \<Rightarrow> error + int list list \<times> int list \<times> 'g rng" where
  "catbird_clusters lib rs n_feat feat_sig rate lmbd eps [] = Inr ([], [], rs)"
| "catbird_clusters lib rs n_feat feat_sig rate lmbd eps (i # is) =
     (if length feat_sig \<le> i then Inl IndexError
      else case catbird_cluster lib rs n_feat (feat_sig ! i) (rate ! i) lmbd eps of
             Inl e \<Rightarrow> Inl e
           | Inr (rows, rs1) \<Rightarrow>
               (case catbird_clusters lib rs1 n_feat feat_sig rate lmbd eps is of
                  Inl e \<Rightarrow> Inl e
                | Inr (X, y, rs2) \<Rightarrow>
                    Inr (rows @ X, replicate (length rows) (int i) @ y, rs2)))"

text \<open>
  The function: the random state, the assertions in the order of the source
  (\<^verbatim>\<open>max(feat_sig)\<close> raises \<^verbatim>\<open>ValueError\<close> on the empty list), then the clusters. The result
  is \<open>(X, y)\<close> and the generator as the call leaves it.
\<close>

definition catbird ::
  "'g library \<Rightarrow> 'g \<Rightarrow> pynum \<Rightarrow> int list \<Rightarrow> int list \<Rightarrow> pynum \<Rightarrow> pynum
     \<Rightarrow> 'g random_state_arg \<Rightarrow> error + int list list \<times> int list \<times> 'g rng" where
  "catbird lib entropy n_feat feat_sig rate lmbd eps random_state =
     (case resolve_random_state lib entropy random_state of
        Inl e \<Rightarrow> Inl e
      | Inr rs \<Rightarrow>
          (case n_feat of
             PyFloat _ \<Rightarrow> Inl AssertionError
           | PyInt n \<Rightarrow>
               if \<not> 1 < n then Inl AssertionError
               else if feat_sig = [] then Inl ValueError
               else if \<not> Max (set feat_sig) \<le> n then Inl AssertionError
               else (case lmbd of
                       PyInt _ \<Rightarrow> Inl AssertionError
                     | PyFloat l \<Rightarrow>
                         if \<not> (0 \<le> l \<and> l \<le> 1) then Inl AssertionError
                         else (case eps of
                                 PyInt _ \<Rightarrow> Inl AssertionError
                               | PyFloat ep \<Rightarrow>
                                   if \<not> (0 \<le> ep \<and> ep \<le> 1) then Inl AssertionError
                                   else catbird_clusters lib rs n feat_sig rate l ep
                                          [0..<length rate]))))"

section \<open>\<^verbatim>\<open>canard\<close>\<close>

text \<open>
  \<^verbatim>\<open>cats = list(range(n_cat))\<close> and \<^verbatim>\<open>bins = [i / n_cat for i in range(0, (n_cat+1))]\<close>;
  each edge is the binary64 quotient. (\<open>n_cat > 1\<close> is asserted before, so the divisor is
  not zero, and no quotient exceeds 1.)
\<close>

definition categories :: "int \<Rightarrow> int list" where
  "categories n_cat = [0..n_cat - 1]"

definition bin_edges :: "int \<Rightarrow> rat list" where
  "bin_edges n_cat = map (\<lambda>i. fl (of_int i / of_int n_cat)) [0..n_cat]"

text \<open>
  \<^verbatim>\<open>pd.cut(x, bins=bins, labels=cats)[0]\<close> for a one-element array \<^verbatim>\<open>x\<close>. pandas raises
  \<^verbatim>\<open>ValueError\<close> unless the edges increase strictly and there is one label for each bin.
  The bins are closed on the right and the lowest edge is not included
  (\<^verbatim>\<open>right=True, include_lowest=False\<close>): with \<open>ids\<close> the number of edges below \<open>x\<close>, the
  label is \<open>labels[ids - 1]\<close>, and there is none (\<^verbatim>\<open>NaN\<close>) when \<open>ids\<close> is 0 or the number
  of edges.
\<close>

definition strictly_increasing :: "rat list \<Rightarrow> bool" where
  "strictly_increasing xs = sorted_wrt (<) xs"

definition pd_cut :: "rat list \<Rightarrow> int list \<Rightarrow> rat \<Rightarrow> error + int option" where
  "pd_cut bins labels x =
     (if \<not> strictly_increasing bins then Inl ValueError
      else if length labels \<noteq> length bins - 1 then Inl ValueError
      else let ids = length (filter (\<lambda>edge. edge < x) bins)
           in Inr (if ids = 0 \<or> ids = length bins then None else Some (labels ! (ids - 1))))"

text \<open>
  \<^verbatim>\<open>int(n_feat*(1-eps))\<close>: the float difference, the int converted to float, the float
  product, truncated.
\<close>

definition controlled_size :: "int \<Rightarrow> rat \<Rightarrow> error + int" where
  "controlled_size n_feat eps =
     (case float_of_int n_feat of
        Inl e \<Rightarrow> Inl e
      | Inr nf \<Rightarrow> Inr (int_of_float (fl (nf * fl (1 - eps)))))"

text \<open>\<^verbatim>\<open>1 + lmbd * random_state.random_sample()\<close>, with the int \<^verbatim>\<open>lmbd\<close>.\<close>

definition shape_draw :: "'g library \<Rightarrow> int \<Rightarrow> 'g rng \<Rightarrow> error + rat \<times> 'g rng" where
  "shape_draw lib lmbd rs =
     (case rs_random_sample lib rs of
        (u, rs1) \<Rightarrow>
          (case float_of_int lmbd of
             Inl e \<Rightarrow> Inl e
           | Inr lf \<Rightarrow> Inr (fl (1 + fl (lf * u)), rs1)))"

text \<open>
  \<^verbatim>\<open>
  for i in idx:
      a[i] = 1 + lmbd * random_state.random_sample()
      b[i] = 1 + lmbd * random_state.random_sample()
  \<close>
\<close>

fun canard_shapes ::
  "'g library \<Rightarrow> int \<Rightarrow> nat list \<Rightarrow> rat list \<Rightarrow> rat list \<Rightarrow> 'g rng
     \<Rightarrow> error + rat list \<times> rat list \<times> 'g rng" where
  "canard_shapes lib lmbd [] a b rs = Inr (a, b, rs)"
| "canard_shapes lib lmbd (i # idx) a b rs =
     (case shape_draw lib lmbd rs of
        Inl e \<Rightarrow> Inl e
      | Inr (av, rs1) \<Rightarrow>
          (case shape_draw lib lmbd rs1 of
             Inl e \<Rightarrow> Inl e
           | Inr (bv, rs2) \<Rightarrow> canard_shapes lib lmbd idx (a[i := av]) (b[i := bv]) rs2))"

text \<open>
  The structural parameters of one cluster: the controlled indices, then their shape
  parameters; every other feature keeps \<open>(1, 1)\<close>.
\<close>

definition canard_params ::
  "'g library \<Rightarrow> 'g rng \<Rightarrow> int \<Rightarrow> int \<Rightarrow> rat
     \<Rightarrow> error + nat list \<times> rat list \<times> rat list \<times> 'g rng" where
  "canard_params lib rs n_feat lmbd eps =
     (case controlled_size n_feat eps of
        Inl e \<Rightarrow> Inl e
      | Inr sz \<Rightarrow>
          (case rs_choice lib rs n_feat sz of
             Inl e \<Rightarrow> Inl e
           | Inr (idx, rs1) \<Rightarrow>
               (case canard_shapes lib lmbd idx
                       (replicate (nat n_feat) 1) (replicate (nat n_feat) 1) rs1 of
                  Inl e \<Rightarrow> Inl e
                | Inr (a, b, rs2) \<Rightarrow> Inr (idx, a, b, rs2))))"

text \<open>
  One example: for each feature \<open>j\<close> in order, one Beta sample with the shape
  \<open>(a[j], b[j])\<close>, binned. The list of shapes is \<open>zip a b\<close>.
\<close>

fun canard_example ::
  "'g library \<Rightarrow> rat list \<Rightarrow> int list \<Rightarrow> (rat \<times> rat) list \<Rightarrow> 'g rng
     \<Rightarrow> error + int option list \<times> 'g rng" where
  "canard_example lib bins cats [] rs = Inr ([], rs)"
| "canard_example lib bins cats ((aj, bj) # shapes) rs =
     (case rs_beta lib rs aj bj of
        Inl e \<Rightarrow> Inl e
      | Inr (x, rs1) \<Rightarrow>
          (case pd_cut bins cats x of
             Inl e \<Rightarrow> Inl e
           | Inr c \<Rightarrow>
               (case canard_example lib bins cats shapes rs1 of
                  Inl e \<Rightarrow> Inl e
                | Inr (row, rs2) \<Rightarrow> Inr (c # row, rs2))))"

fun canard_examples ::
  "'g library \<Rightarrow> nat \<Rightarrow> rat list \<Rightarrow> int list \<Rightarrow> (rat \<times> rat) list \<Rightarrow> 'g rng
     \<Rightarrow> error + int option list list \<times> 'g rng" where
  "canard_examples lib 0 bins cats shapes rs = Inr ([], rs)"
| "canard_examples lib (Suc m) bins cats shapes rs =
     (case canard_example lib bins cats shapes rs of
        Inl e \<Rightarrow> Inl e
      | Inr (row, rs1) \<Rightarrow>
          (case canard_examples lib m bins cats shapes rs1 of
             Inl e \<Rightarrow> Inl e
           | Inr (rows, rs2) \<Rightarrow> Inr (row # rows, rs2)))"

text \<open>
  \<^verbatim>\<open>for m in rate\<close>: the clusters in order, \<open>q\<close> the label of the current one.
\<close>

fun canard_clusters ::
  "'g library \<Rightarrow> 'g rng \<Rightarrow> int \<Rightarrow> int \<Rightarrow> int \<Rightarrow> rat \<Rightarrow> int \<Rightarrow> int list
     \<Rightarrow> error + int option list list \<times> int list \<times> 'g rng" where
  "canard_clusters lib rs n_feat n_cat lmbd eps q [] = Inr ([], [], rs)"
| "canard_clusters lib rs n_feat n_cat lmbd eps q (m # rate) =
     (case canard_params lib rs n_feat lmbd eps of
        Inl e \<Rightarrow> Inl e
      | Inr (idx, a, b, rs1) \<Rightarrow>
          (case canard_examples lib (nat m) (bin_edges n_cat) (categories n_cat) (zip a b) rs1 of
             Inl e \<Rightarrow> Inl e
           | Inr (rows, rs2) \<Rightarrow>
               (case canard_clusters lib rs2 n_feat n_cat lmbd eps (q + 1) rate of
                  Inl e \<Rightarrow> Inl e
                | Inr (X, y, rs3) \<Rightarrow>
                    Inr (rows @ X, replicate (length rows) q @ y, rs3))))"

text \<open>
  The function. A row entry is \<open>Some c\<close> for the category \<open>c\<close> and \<open>None\<close> where
  \<^verbatim>\<open>pd.cut\<close> gave \<^verbatim>\<open>NaN\<close>; the final \<^verbatim>\<open>np.array(X, dtype=np.int64)\<close> casts such an entry to
  an int64 that is no category.
\<close>

definition canard ::
  "'g library \<Rightarrow> 'g \<Rightarrow> pynum \<Rightarrow> pynum \<Rightarrow> int list \<Rightarrow> pynum \<Rightarrow> pynum
     \<Rightarrow> 'g random_state_arg \<Rightarrow> error + int option list list \<times> int list \<times> 'g rng" where
  "canard lib entropy n_feat n_cat rate lmbd eps random_state =
     (case resolve_random_state lib entropy random_state of
        Inl e \<Rightarrow> Inl e
      | Inr rs \<Rightarrow>
          (case n_feat of
             PyFloat _ \<Rightarrow> Inl AssertionError
           | PyInt n \<Rightarrow>
               if \<not> 1 < n then Inl AssertionError
               else (case n_cat of
                       PyFloat _ \<Rightarrow> Inl AssertionError
                     | PyInt c \<Rightarrow>
                         if \<not> 1 < c then Inl AssertionError
                         else (case lmbd of
                                 PyFloat _ \<Rightarrow> Inl AssertionError
                               | PyInt l \<Rightarrow>
                                   if \<not> 1 \<le> l then Inl AssertionError
                                   else (case eps of
                                           PyInt _ \<Rightarrow> Inl AssertionError
                                         | PyFloat ep \<Rightarrow>
                                             if \<not> (0 \<le> ep \<and> ep \<le> 1) then Inl AssertionError
                                             else canard_clusters lib rs n c l ep 0 rate)))))"

section \<open>The shape of a dataset, as the specification words it\<close>

text \<open>
  The labels of a dataset with the example counts \<open>rate\<close>: contiguous blocks in input
  order, block \<open>i\<close> holding \<open>rate[i]\<close> copies of the label \<open>i\<close>.
\<close>

definition label_blocks :: "int list \<Rightarrow> int list" where
  "label_blocks rate = concat (map (\<lambda>i. replicate (nat (rate ! i)) (int i)) [0..<length rate])"

text \<open>
  \<open>len(X) = len(y) = sum(rate)\<close>, every row has \<open>n_feat\<close> entries, and \<open>y\<close> is the list of
  label blocks: it is non-decreasing, takes exactly the values \<open>0, \<dots>, len(rate) - 1\<close>, and
  holds the label \<open>i\<close> exactly \<open>rate[i]\<close> times.
\<close>

definition dataset_shape :: "int \<Rightarrow> int list \<Rightarrow> 'a list list \<Rightarrow> int list \<Rightarrow> bool" where
  "dataset_shape n_feat rate X y \<longleftrightarrow>
     length X = length y \<and> int (length y) = sum_list rate
   \<and> (\<forall>row\<in>set X. int (length row) = n_feat)
   \<and> y = label_blocks rate
   \<and> sorted y
   \<and> set y = {0..<int (length rate)}
   \<and> (\<forall>i<length rate. int (count_list y (int i)) = rate ! i)"

section \<open>The order of the draws, as the specification words it\<close>

text \<open>
  Per cluster, first the structural parameters, then the draws of each example in
  sequence. For \<^verbatim>\<open>catbird\<close>: the \<open>f \<times> f\<close> projection matrix and the index subset of
  size \<open>f\<close>, then for each example the \<open>1 \<times> f\<close> normal vector and the \<open>n_feat\<close> noise
  bits. For \<^verbatim>\<open>canard\<close>: the index subset of size \<open>sz\<close> and two uniform draws for each of
  its indices, then for each example one Beta draw for each feature.
\<close>

definition catbird_cluster_draws :: "nat \<Rightarrow> nat \<Rightarrow> nat \<Rightarrow> draw list" where
  "catbird_cluster_draws n f m =
     [Normal f f, Choice n f] @ concat (replicate m [Normal 1 f, Binomial n])"

definition catbird_draw_order :: "int \<Rightarrow> int list \<Rightarrow> int list \<Rightarrow> draw list" where
  "catbird_draw_order n_feat feat_sig rate =
     concat (map (\<lambda>i. catbird_cluster_draws (nat n_feat) (nat (feat_sig ! i)) (nat (rate ! i)))
               [0..<length rate])"

definition canard_cluster_draws :: "nat \<Rightarrow> nat \<Rightarrow> nat \<Rightarrow> draw list" where
  "canard_cluster_draws n sz m =
     [Choice n sz] @ replicate (2 * sz) RandomSample @ replicate (m * n) Beta"

definition canard_draw_order :: "int \<Rightarrow> int \<Rightarrow> int list \<Rightarrow> draw list" where
  "canard_draw_order n_feat sz rate =
     concat (map (\<lambda>m. canard_cluster_draws (nat n_feat) (nat sz) (nat m)) rate)"

section \<open>Valid inputs\<close>

text \<open>
  The inputs the specification calls valid. \<^verbatim>\<open>random_state\<close> is \<^verbatim>\<open>None\<close>, a seed that
  \<^verbatim>\<open>RandomState\<close> accepts, or a generator. For \<^verbatim>\<open>catbird\<close>: \<open>n_feat > 1\<close>, one positive
  \<^verbatim>\<open>feat_sig\<close> entry of at most \<open>n_feat\<close> and one positive \<^verbatim>\<open>rate\<close> entry for each cluster, at
  least one cluster (\<^verbatim>\<open>max(feat_sig)\<close> needs one), \<^verbatim>\<open>lmbd\<close> and \<^verbatim>\<open>eps\<close> in \<open>[0, 1]\<close>. For
  \<^verbatim>\<open>canard\<close>: \<open>n_feat > 1\<close>, \<open>n_cat > 1\<close>, positive \<^verbatim>\<open>rate\<close> entries, \<open>lmbd \<ge> 1\<close>, \<^verbatim>\<open>eps\<close> in
  \<open>[0, 1]\<close>; the two sizes are at most \<open>2 ^ 53\<close> (a list of \<open>n_feat\<close> shapes and a list of
  \<open>n_cat + 1\<close> edges are built in memory) and \<^verbatim>\<open>lmbd\<close> is at most \<open>2 ^ 1023\<close>, so that it
  converts to a float.
\<close>

definition seed_ok :: "'g random_state_arg \<Rightarrow> bool" where
  "seed_ok random_state =
     (case random_state of
        NoneState \<Rightarrow> True
      | IntSeed s \<Rightarrow> 0 \<le> s \<and> s < 2 ^ 32
      | Generator g \<Rightarrow> True
      | OtherObject \<Rightarrow> False)"

definition catbird_valid :: "int \<Rightarrow> int list \<Rightarrow> int list \<Rightarrow> rat \<Rightarrow> rat \<Rightarrow> bool" where
  "catbird_valid n_feat feat_sig rate lmbd eps \<longleftrightarrow>
     1 < n_feat \<and> feat_sig \<noteq> [] \<and> length feat_sig = length rate
   \<and> (\<forall>f\<in>set feat_sig. 0 < f \<and> f \<le> n_feat) \<and> (\<forall>m\<in>set rate. 0 < m)
   \<and> 0 \<le> lmbd \<and> lmbd \<le> 1 \<and> 0 \<le> eps \<and> eps \<le> 1"

definition canard_valid :: "int \<Rightarrow> int \<Rightarrow> int list \<Rightarrow> int \<Rightarrow> rat \<Rightarrow> bool" where
  "canard_valid n_feat n_cat rate lmbd eps \<longleftrightarrow>
     1 < n_feat \<and> n_feat \<le> 2 ^ 53 \<and> 1 < n_cat \<and> n_cat \<le> 2 ^ 53
   \<and> (\<forall>m\<in>set rate. 0 < m)
   \<and> 1 \<le> lmbd \<and> lmbd \<le> 2 ^ 1023 \<and> 0 \<le> eps \<and> eps \<le> 1"

text \<open>The hypothesis that every Beta draw is strictly positive.\<close>

definition beta_positive :: "'g library \<Rightarrow> bool" where
  "beta_positive lib \<longleftrightarrow> (\<forall>g a b. 0 < fst (gen_beta lib g a b))"


section \<open>A library instance\<close>

text \<open>
  A library whose draws are constants, to run the generators on concrete inputs: the
  generator state counts the draws, normal draws and noise bits are 0, the index subset
  of size \<open>k\<close> is \<open>0, \<dots>, k - 1\<close>, a uniform draw is 0 and a Beta draw is the parameter
  \<open>x\<close>. The matrix product is the exact one.
\<close>

definition constant_library :: "rat \<Rightarrow> nat library" where
  "constant_library x =
     \<lparr> seed_generator = (\<lambda>s. nat s),
       gen_normal = (\<lambda>g r c. (replicate r (replicate c 0), Suc g)),
       gen_choice = (\<lambda>g n k. ([0..<k], Suc g)),
       gen_binomial = (\<lambda>g p n. (replicate n 0, Suc g)),
       gen_random_sample = (\<lambda>g. (0, Suc g)),
       gen_beta = (\<lambda>g a b. (x, Suc g)),
       matmul_row = (\<lambda>A W. map (\<lambda>j. sum_list (map2 (\<lambda>a row. a * row ! j) A W))
                                [0..<length (hd W)]),
       norm_cdf = (\<lambda>x. 1 / 2),
       float_sqrt = (\<lambda>x. 1) \<rparr>"

section \<open>Properties of binary64 rounding\<close>

subsection \<open>The binary exponent\<close>

lemma pow2_less_iff: "(2::rat) powi m < 2 powi n \<longleftrightarrow> m < n"
proof
  assume h: "(2::rat) powi m < 2 powi n"
  show "m < n"
  proof (rule ccontr)
    assume "\<not> m < n"
    then have "n \<le> m" by simp
    then have "(2::rat) powi n \<le> 2 powi m" by (intro power_int_increasing) auto
    with h show False by simp
  qed
next
  assume "m < n"
  then show "(2::rat) powi m < 2 powi n" by (intro power_int_strict_increasing) auto
qed

lemma pow2_le_iff: "(2::rat) powi m \<le> 2 powi n \<longleftrightarrow> m \<le> n"
  using pow2_less_iff[of n m] by (simp only: linorder_not_less[symmetric])

lemma ilog2_bounds_ge1:
  assumes "1 \<le> x"
  shows "2 powi (ilog2 x) \<le> x \<and> x < 2 powi (ilog2 x + 1)"
proof -
  define n where "n = nat \<lfloor>x\<rfloor>"
  have n1: "0 < n" using assms by (simp add: n_def)
  have fb: "2 ^ (floorlog 2 n - 1) \<le> n \<and> n < 2 ^ floorlog 2 n"
    using floorlog_bounds[of n 2] n1 by simp
  have fpos: "0 < floorlog 2 n" using n1 by (simp add: floorlog_def)
  have e: "ilog2 x = int (floorlog 2 n) - 1" using assms by (simp add: ilog2_def n_def)
  have nx: "rat_of_nat n \<le> x" using assms unfolding n_def by (simp add: of_nat_nat)
  have xn: "x < rat_of_nat n + 1" using assms unfolding n_def by (simp add: of_nat_nat) linarith
  have "2 powi (ilog2 x) = (2::rat) ^ (floorlog 2 n - 1)"
    using fpos by (simp add: e power_int_def nat_diff_distrib)
  also have "\<dots> = rat_of_nat (2 ^ (floorlog 2 n - 1))" by simp
  also have "\<dots> \<le> rat_of_nat n" using fb by (simp only: of_nat_le_iff)
  finally have lo: "2 powi (ilog2 x) \<le> x" using nx by linarith
  have "Suc n \<le> 2 ^ floorlog 2 n" using fb by simp
  then have "rat_of_nat (Suc n) \<le> rat_of_nat (2 ^ floorlog 2 n)" by (simp only: of_nat_le_iff)
  then have "rat_of_nat n + 1 \<le> rat_of_nat (2 ^ floorlog 2 n)" by simp
  also have "\<dots> = 2 powi (ilog2 x + 1)" by (simp add: e)
  finally show ?thesis using lo xn by linarith
qed

lemma ilog2_bounds_lt1:
  assumes "0 < x" "x < 1"
  shows "2 powi (ilog2 x) \<le> x \<and> x < 2 powi (ilog2 x + 1)"
proof -
  define c where "c = \<lceil>1 / x\<rceil>"
  define n where "n = nat (c - 1)"
  have ix: "1 < 1 / x" using assms by simp
  have c2: "2 \<le> c" using ix unfolding c_def by linarith
  have n1: "0 < n" using c2 by (simp add: n_def)
  have fb: "2 ^ (floorlog 2 n - 1) \<le> n \<and> n < 2 ^ floorlog 2 n"
    using floorlog_bounds[of n 2] n1 by simp
  define t where "t = floorlog 2 n"
  have fpos: "0 < t" using n1 by (simp add: t_def floorlog_def)
  have e: "ilog2 x = - int t" using assms by (simp add: ilog2_def n_def c_def t_def)
  have nc: "int n = c - 1" using c2 by (simp add: n_def)
  have c_hi: "1 / x \<le> of_int c" unfolding c_def by linarith
  have c_lo: "of_int c - 1 < 1 / x" unfolding c_def by linarith
  have "int n < int (2 ^ t)" using fb unfolding t_def by (simp only: of_nat_less_iff)
  then have "c \<le> 2 ^ t" using nc by simp
  then have "(of_int c :: rat) \<le> of_int (2 ^ t)" by (simp only: of_int_le_iff)
  then have "(of_int c :: rat) \<le> 2 ^ t" by simp
  with c_hi have h1: "1 / x \<le> 2 ^ t" by linarith
  have "int (2 ^ (t - 1)) \<le> int n" using fb unfolding t_def by (simp only: of_nat_le_iff)
  then have "2 ^ (t - 1) \<le> c - 1" using nc by simp
  then have "(of_int (2 ^ (t - 1)) :: rat) \<le> of_int (c - 1)" by (simp only: of_int_le_iff)
  then have "(2 :: rat) ^ (t - 1) \<le> of_int c - 1" by simp
  with c_lo have h2: "2 ^ (t - 1) < 1 / x" by linarith
  have p1: "2 powi (ilog2 x) = 1 / (2::rat) ^ t" by (simp add: e power_int_minus_divide)
  have p2: "2 powi (ilog2 x + 1) = 1 / (2::rat) ^ (t - 1)"
  proof -
    have "ilog2 x + 1 = - int (t - 1)" using fpos e by simp
    then show ?thesis by (simp only: power_int_minus_divide power_int_of_nat)
  qed
  have lo: "1 / (2::rat) ^ t \<le> x" using h1 assms by (simp add: field_simps)
  have hi: "x < 1 / (2::rat) ^ (t - 1)" using h2 assms by (simp add: field_simps)
  show ?thesis using lo hi p1 p2 by simp
qed

lemma ilog2_bounds:
  "0 < x \<Longrightarrow> 2 powi (ilog2 x) \<le> x \<and> x < 2 powi (ilog2 x + 1)"
  using ilog2_bounds_ge1[of x] ilog2_bounds_lt1[of x] by (cases "1 \<le> x") auto

lemma ilog2_eqI:
  assumes "0 < x" "2 powi e \<le> x" "x < 2 powi (e + 1)"
  shows "ilog2 x = e"
proof -
  have b: "2 powi (ilog2 x) \<le> x \<and> x < 2 powi (ilog2 x + 1)" using ilog2_bounds assms(1) by blast
  have "(2::rat) powi e < 2 powi (ilog2 x + 1)" using assms b by linarith
  then have 1: "e < ilog2 x + 1" by (simp only: pow2_less_iff)
  have "(2::rat) powi (ilog2 x) < 2 powi (e + 1)" using assms b by linarith
  then have 2: "ilog2 x < e + 1" by (simp only: pow2_less_iff)
  show ?thesis using 1 2 by simp
qed

lemma ilog2_mono:
  assumes "0 < x" "x \<le> y"
  shows "ilog2 x \<le> ilog2 y"
proof -
  have bx: "2 powi (ilog2 x) \<le> x" using ilog2_bounds assms by blast
  have by': "y < 2 powi (ilog2 y + 1)" using ilog2_bounds[of y] assms by simp
  have "(2::rat) powi (ilog2 x) < 2 powi (ilog2 y + 1)" using bx by' assms by linarith
  then have "ilog2 x < ilog2 y + 1" by (simp only: pow2_less_iff)
  then show ?thesis by simp
qed


subsection \<open>Rounding to the nearest integer, ties to even\<close>

lemma rne_of_int: "rne (of_int n) = n"
  by (simp add: rne_def)

lemma rne_floor_le: "\<lfloor>x\<rfloor> \<le> rne x"
  by (simp add: rne_def Let_def)

lemma rne_le_floor1: "rne x \<le> \<lfloor>x\<rfloor> + 1"
  by (simp add: rne_def Let_def)

lemma rne_mono:
  assumes "x \<le> y"
  shows "rne x \<le> rne y"
proof (cases "\<lfloor>x\<rfloor> = \<lfloor>y\<rfloor>")
  case True
  have d: "x - of_int \<lfloor>x\<rfloor> \<le> y - of_int \<lfloor>x\<rfloor>" using assms by simp
  show ?thesis using d unfolding rne_def Let_def True[symmetric] by auto
next
  case False
  have "\<lfloor>x\<rfloor> \<le> \<lfloor>y\<rfloor>" using assms by (rule floor_mono)
  then have "\<lfloor>x\<rfloor> + 1 \<le> \<lfloor>y\<rfloor>" using False by simp
  then show ?thesis using rne_le_floor1[of x] rne_floor_le[of y] by linarith
qed

lemma rne_upper: "of_int (rne x) \<le> x + 1 / 2"
proof -
  have 2: "of_int \<lfloor>x\<rfloor> \<le> x" by simp
  have "rne x = \<lfloor>x\<rfloor> \<or> (rne x = \<lfloor>x\<rfloor> + 1 \<and> 1 / 2 \<le> x - of_int \<lfloor>x\<rfloor>)"
    unfolding rne_def Let_def by (auto simp: not_less)
  then show ?thesis
  proof
    assume "rne x = \<lfloor>x\<rfloor>"
    then have "of_int (rne x) = (of_int \<lfloor>x\<rfloor> :: rat)" by simp
    then show ?thesis using 2 by linarith
  next
    assume a: "rne x = \<lfloor>x\<rfloor> + 1 \<and> 1 / 2 \<le> x - of_int \<lfloor>x\<rfloor>"
    then have "of_int (rne x) = (of_int \<lfloor>x\<rfloor> :: rat) + 1" by simp
    then show ?thesis using a by linarith
  qed
qed

lemma rne_le_int: "x \<le> of_int n \<Longrightarrow> rne x \<le> n"
  using rne_mono[of x "of_int n"] by (simp add: rne_of_int)

lemma rne_ge_int: "of_int n \<le> x \<Longrightarrow> n \<le> rne x"
  using rne_mono[of "of_int n" x] by (simp add: rne_of_int)

lemma rne_small: "0 \<le> x \<Longrightarrow> x < 1 / 2 \<Longrightarrow> rne x = 0"
proof -
  assume a: "0 \<le> x" "x < 1 / 2"
  then have "\<lfloor>x\<rfloor> = 0" by (simp add: floor_unique)
  then show ?thesis using a by (simp add: rne_def)
qed

lemma fl_pos: "0 < x \<Longrightarrow> fl x = of_int (rne (x / 2 powi ulp_exponent x)) * 2 powi ulp_exponent x"
  by (simp add: fl_def)

lemma pow2_split: "(2::rat) powi (a - b) * 2 powi b = 2 powi a"
  by (simp flip: power_int_add)

lemma pow2_div: "(2::rat) powi a / 2 powi b = 2 powi (a - b)"
  by (simp add: power_int_diff)

lemma pow2_nat: "0 \<le> a \<Longrightarrow> (2::rat) powi a = of_int (2 ^ nat a)"
  by (simp add: power_int_def)

lemma fl_upper_pow:
  assumes "0 < x"
  shows "fl x \<le> 2 powi (ilog2 x + 1)"
proof -
  define e where "e = ilog2 x"
  define q where "q = ulp_exponent x"
  define z where "z = x / 2 powi q"
  have xe: "x < 2 powi (e + 1)" using ilog2_bounds[OF assms] by (simp add: e_def)
  have zlt: "z < 2 powi (e + 1 - q)"
    unfolding z_def using xe by (simp add: divide_less_eq pow2_split)
  have f: "fl x = of_int (rne z) * 2 powi q" using assms by (simp add: fl_pos q_def z_def)
  show ?thesis
  proof (cases "0 \<le> e + 1 - q")
    case True
    have "z \<le> of_int (2 ^ nat (e + 1 - q))" using zlt pow2_nat[OF True] by simp
    then have "rne z \<le> 2 ^ nat (e + 1 - q)" by (rule rne_le_int)
    then have "(of_int (rne z) :: rat) \<le> of_int (2 ^ nat (e + 1 - q))" by (simp only: of_int_le_iff)
    then have "(of_int (rne z) :: rat) \<le> 2 powi (e + 1 - q)" using pow2_nat[OF True] by simp
    then have "of_int (rne z) * 2 powi q \<le> 2 powi (e + 1 - q) * (2::rat) powi q"
      by (intro mult_right_mono) auto
    then show ?thesis by (simp add: f pow2_split e_def)
  next
    case False
    then have "e + 1 - q \<le> - 1" by simp
    then have "(2::rat) powi (e + 1 - q) \<le> 2 powi (- 1)" by (simp only: pow2_le_iff)
    then have "z < 1 / 2" using zlt by simp
    moreover have "0 \<le> z" unfolding z_def using assms by simp
    ultimately have "rne z = 0" by (intro rne_small)
    then show ?thesis by (simp add: f)
  qed
qed

lemma fl_lower_pow:
  assumes "0 < x" "- 1074 \<le> ilog2 x - 52"
  shows "2 powi (ilog2 x) \<le> fl x"
proof -
  define e where "e = ilog2 x"
  have q: "ulp_exponent x = e - 52" using assms by (simp add: ulp_exponent_def e_def)
  define z where "z = x / 2 powi (e - 52)"
  have xe: "2 powi e \<le> x" using ilog2_bounds[OF assms(1)] by (simp add: e_def)
  have "(2::rat) powi e / 2 powi (e - 52) \<le> x / 2 powi (e - 52)"
    using xe by (intro divide_right_mono) auto
  then have "(2::rat) powi (e - (e - 52)) \<le> z"
    unfolding z_def by (simp only: pow2_div)
  then have "of_int (2 ^ 52) \<le> z" by simp
  then have "2 ^ 52 \<le> rne z" by (rule rne_ge_int)
  then have "(of_int (2 ^ 52) :: rat) \<le> of_int (rne z)" by (simp only: of_int_le_iff)
  then have r52: "(2::rat) powi 52 \<le> of_int (rne z)" by simp
  have "(2::rat) powi e = 2 powi 52 * 2 powi (e - 52)"
    using pow2_split[of e "e - 52"] by simp
  also have "\<dots> \<le> of_int (rne z) * 2 powi (e - 52)"
    using r52 by (intro mult_right_mono) auto
  also have "\<dots> = fl x" using assms(1) by (simp add: fl_pos q z_def)
  finally show ?thesis by (simp only: e_def)
qed

lemma fl_nonneg_pos: "0 < x \<Longrightarrow> 0 \<le> fl x"
proof -
  assume a: "0 < x"
  have "of_int 0 \<le> x / 2 powi ulp_exponent x" using a by simp
  then have "0 \<le> rne (x / 2 powi ulp_exponent x)" by (rule rne_ge_int)
  then show ?thesis using a by (simp add: fl_pos)
qed

lemma fl_mono_pos:
  assumes "0 < x" "x \<le> y"
  shows "fl x \<le> fl y"
proof -
  have ypos: "0 < y" using assms by simp
  have em: "ilog2 x \<le> ilog2 y" using assms by (rule ilog2_mono)
  then have qm: "ulp_exponent x \<le> ulp_exponent y" using assms ypos by (simp add: ulp_exponent_def)
  show ?thesis
  proof (cases "ulp_exponent x = ulp_exponent y")
    case True
    have "x / 2 powi ulp_exponent y \<le> y / 2 powi ulp_exponent y" using assms by (simp add: divide_right_mono)
    then have "rne (x / 2 powi ulp_exponent y) \<le> rne (y / 2 powi ulp_exponent y)" by (rule rne_mono)
    then have "(of_int (rne (x / 2 powi ulp_exponent y)) :: rat) \<le> of_int (rne (y / 2 powi ulp_exponent y))"
      by (simp only: of_int_le_iff)
    then have "of_int (rne (x / 2 powi ulp_exponent y)) * 2 powi ulp_exponent y
        \<le> of_int (rne (y / 2 powi ulp_exponent y)) * (2::rat) powi ulp_exponent y"
      by (intro mult_right_mono) auto
    then show ?thesis using assms ypos by (simp add: fl_pos True)
  next
    case False
    then have lt: "ulp_exponent x < ulp_exponent y" using qm by simp
    then have ny: "- 1074 \<le> ilog2 y - 52" and e1: "ilog2 x + 1 \<le> ilog2 y"
      using assms ypos by (auto simp: ulp_exponent_def max_def split: if_splits)
    have "fl x \<le> 2 powi (ilog2 x + 1)" using assms(1) by (rule fl_upper_pow)
    also have "\<dots> \<le> 2 powi (ilog2 y)" using e1 by (simp only: pow2_le_iff)
    also have "\<dots> \<le> fl y" using ypos ny by (rule fl_lower_pow)
    finally show ?thesis .
  qed
qed

lemma fl_zero: "fl 0 = 0"
  by (simp add: fl_def)

lemma fl_nonneg: "0 \<le> x \<Longrightarrow> 0 \<le> fl x"
  using fl_nonneg_pos[of x] by (cases "x = 0") (auto simp: fl_zero)

lemma fl_mono:
  assumes "0 \<le> x" "x \<le> y"
  shows "fl x \<le> fl y"
proof (cases "x = 0")
  case True
  then show ?thesis using assms fl_nonneg[of y] by (simp add: fl_zero)
next
  case False
  then show ?thesis using assms fl_mono_pos[of x y] by simp
qed



subsection \<open>Binary64 numbers are fixed points of the rounding\<close>

lemma pow2_add_nat: "(2::rat) ^ k * 2 powi q = 2 powi (int k + q)"
  by (simp add: power_int_add)

lemma fl_repr_lt:
  assumes "0 < n" "n < 2 ^ 53" "- 1074 \<le> q"
  shows "fl (of_int n * 2 powi q) = of_int n * 2 powi q"
proof -
  define x :: rat where "x = of_int n * 2 powi q"
  have xpos: "0 < x" using assms by (simp add: x_def)
  define e where "e = ilog2 x"
  define q' where "q' = ulp_exponent x"
  have "(of_int n :: rat) < of_int (2 ^ 53)" using assms(2) by (simp only: of_int_less_iff)
  then have "(of_int n :: rat) < 2 powi 53" by simp
  then have "x < 2 powi 53 * 2 powi q" unfolding x_def by (intro mult_strict_right_mono) auto
  also have "\<dots> = 2 powi (53 + q)" using pow2_add_nat[of 53 q] by simp
  finally have xu: "x < 2 powi (53 + q)" .
  have "2 powi e \<le> x" using ilog2_bounds[OF xpos] by (simp add: e_def)
  then have "(2::rat) powi e < 2 powi (53 + q)" using xu by linarith
  then have "e < 53 + q" by (simp only: pow2_less_iff)
  then have qq: "q' \<le> q" using assms(3) xpos by (simp add: q'_def ulp_exponent_def e_def)
  have "x / 2 powi q' = of_int n * (2 powi q / 2 powi q')" by (simp add: x_def)
  also have "\<dots> = of_int n * 2 powi (q - q')" by (simp only: pow2_div)
  also have "\<dots> = of_int n * of_int (2 ^ nat (q - q'))" using qq by (simp add: pow2_nat)
  also have "\<dots> = of_int (n * 2 ^ nat (q - q'))" by simp
  finally have z: "x / 2 powi q' = of_int (n * 2 ^ nat (q - q'))" .
  have "fl x = of_int (rne (x / 2 powi q')) * 2 powi q'" using xpos by (simp add: fl_pos q'_def)
  also have "\<dots> = x / 2 powi q' * 2 powi q'" by (simp only: z rne_of_int)
  also have "\<dots> = x" by simp
  finally show ?thesis by (simp add: x_def)
qed

lemma fl_repr:
  assumes "0 \<le> n" "n \<le> 2 ^ 53" "- 1074 \<le> q"
  shows "fl (of_int n * 2 powi q) = of_int n * 2 powi q"
proof -
  consider "n = 0" | "0 < n" "n < 2 ^ 53" | "n = 2 ^ 53" using assms by linarith
  then show ?thesis
  proof cases
    case 1
    then show ?thesis by (simp add: fl_zero)
  next
    case 2
    then show ?thesis using assms(3) by (rule fl_repr_lt)
  next
    case 3
    have "(of_int n :: rat) * 2 powi q = of_int (2 ^ 52) * 2 powi (q + 1)"
      by (simp add: 3 power_int_add)
    moreover have "fl (of_int (2 ^ 52) * 2 powi (q + 1)) = of_int (2 ^ 52) * 2 powi (q + 1)"
      using assms(3) by (intro fl_repr_lt) auto
    ultimately show ?thesis by simp
  qed
qed

lemma fl_of_int:
  "0 \<le> m \<Longrightarrow> m \<le> 2 ^ 53 \<Longrightarrow> fl (of_int m) = of_int m"
  using fl_repr[of m 0] by simp

lemma fl_pow2: "- 1074 \<le> e \<Longrightarrow> fl (2 powi e) = 2 powi e"
  using fl_repr[of 1 e] by simp

lemma fl_error:
  assumes "0 < x"
  shows "fl x \<le> x + 2 powi (ulp_exponent x - 1)"
proof -
  define q where "q = ulp_exponent x"
  have "of_int (rne (x / 2 powi q)) \<le> x / 2 powi q + 1 / 2" by (rule rne_upper)
  then have "of_int (rne (x / 2 powi q)) * 2 powi q \<le> (x / 2 powi q + 1 / 2) * 2 powi q"
    by (intro mult_right_mono) auto
  also have "\<dots> = x + 2 powi q / 2" by (simp add: algebra_simps)
  also have "2 powi q / 2 = (2::rat) powi (q - 1)" by (simp add: power_int_diff)
  finally show ?thesis using assms by (simp add: fl_pos q_def)
qed

lemma rne_bound_53:
  assumes "0 < x"
  shows "0 \<le> rne (x / 2 powi ulp_exponent x) \<and> rne (x / 2 powi ulp_exponent x) \<le> 2 ^ 53"
proof -
  define q where "q = ulp_exponent x"
  have "of_int 0 \<le> x / 2 powi q" using assms by simp
  then have lo: "0 \<le> rne (x / 2 powi q)" by (rule rne_ge_int)
  have "x < 2 powi (ilog2 x + 1)" using ilog2_bounds[OF assms] by simp
  also have "\<dots> \<le> 2 powi (53 + q)" using assms by (simp only: pow2_le_iff) (simp add: q_def ulp_exponent_def)
  finally have "x / 2 powi q < 2 powi (53 + q) / 2 powi q" by (intro divide_strict_right_mono) auto
  then have "x / 2 powi q < 2 powi 53" by (simp only: pow2_div) simp
  then have "x / 2 powi q \<le> of_int (2 ^ 53)" by simp
  then have "rne (x / 2 powi q) \<le> 2 ^ 53" by (rule rne_le_int)
  then show ?thesis using lo by (simp add: q_def)
qed



subsection \<open>Truncated quotients\<close>

lemma floor_fl_repr:
  assumes "0 \<le> x"
  shows "fl (of_int \<lfloor>fl x\<rfloor>) = of_int \<lfloor>fl x\<rfloor>"
proof (cases "x = 0")
  case True
  then show ?thesis by (simp add: fl_zero)
next
  case False
  then have xpos: "0 < x" using assms by simp
  define q where "q = ulp_exponent x"
  define m where "m = rne (x / 2 powi q)"
  have m: "0 \<le> m" "m \<le> 2 ^ 53" using rne_bound_53[OF xpos] by (simp_all add: m_def q_def)
  have q: "- 1074 \<le> q" by (simp add: q_def ulp_exponent_def)
  have f: "fl x = of_int m * 2 powi q" using xpos by (simp add: fl_pos m_def q_def)
  show ?thesis
  proof (cases "0 \<le> q")
    case True
    have fi: "fl x = of_int (m * 2 ^ nat q)" using True by (simp add: f pow2_nat)
    have fx: "of_int \<lfloor>fl x\<rfloor> = fl x" by (simp only: fi floor_of_int)
    have "fl (fl x) = fl x" unfolding f using m q by (rule fl_repr)
    then show ?thesis by (simp only: fx)
  next
    case False
    then have "q \<le> 0" by simp
    then have "(2::rat) powi q \<le> 2 powi 0" by (simp only: pow2_le_iff)
    then have "of_int m * (2::rat) powi q \<le> of_int m * 1" using m(1) by (intro mult_left_mono) auto
    then have "fl x \<le> of_int m" by (simp add: f)
    then have "\<lfloor>fl x\<rfloor> \<le> m" by (simp add: floor_le_iff) 
    moreover have "0 \<le> \<lfloor>fl x\<rfloor>" using fl_nonneg[OF assms] by simp
    ultimately have "0 \<le> \<lfloor>fl x\<rfloor>" "\<lfloor>fl x\<rfloor> \<le> 2 ^ 53" using m(2) by linarith+
    then show ?thesis by (rule fl_of_int)
  qed
qed

lemma fl_div_less_succ:
  assumes "0 \<le> a" "a \<le> 2 ^ 53" "0 < b"
  shows "fl (of_int a / of_int b) < of_int (a div b) + 1"
proof -
  define x :: rat where "x = of_int a / of_int b"
  define k where "k = a div b"
  have k0: "0 \<le> k" using assms by (simp add: k_def pos_imp_zdiv_nonneg_iff)
  have ka: "k \<le> a" using assms zdiv_mono2[of a 1 b] unfolding k_def by simp
  have bpos: "(0::rat) < of_int b" using assms by simp
  show ?thesis
  proof (cases "a mod b = 0")
    case True
    then have "a = k * b" unfolding k_def by auto
    then have "x = of_int k" using assms by (simp add: x_def)
    moreover have "fl (of_int k) = of_int k" using k0 ka assms by (intro fl_of_int) auto
    ultimately show ?thesis by (simp add: x_def k_def)
  next
    case False
    have r1: "a mod b \<le> b - 1" using assms by (simp add: zle_diff1_eq)
    have "a = k * b + a mod b" by (simp add: k_def)
    then have "a \<le> k * b + b - 1" using r1 by linarith
    then have "a + 1 \<le> (k + 1) * b" by (simp add: algebra_simps)
    then have "(of_int (a + 1) :: rat) \<le> of_int ((k + 1) * b)" by (simp only: of_int_le_iff)
    then have "(of_int a + 1) / of_int b \<le> ((of_int k + 1) * of_int b :: rat) / of_int b"
      using bpos by (intro divide_right_mono) auto
    then have xk: "x + 1 / of_int b \<le> of_int k + 1"
      using bpos by (simp add: x_def add_divide_distrib)
    have apos: "0 < a" using False assms by (cases "a = 0") auto
    then have xpos: "0 < x" using assms by (simp add: x_def)
    define e where "e = ilog2 x"
    show ?thesis
    proof (cases "- 1074 \<le> e - 52")
      case sub: False
      have "fl x \<le> 2 powi (e + 1)" using fl_upper_pow[OF xpos] by (simp add: e_def)
      also have "\<dots> \<le> 2 powi (- 1)" using sub by (simp only: pow2_le_iff)
      also have "\<dots> < 1" by simp
      finally have "fl x < 1" .
      moreover have "(0::rat) \<le> of_int k" using k0 by simp
      ultimately have "fl x < of_int k + 1" by linarith
      then show ?thesis by (simp only: x_def k_def)
    next
      case True
      then have q: "ulp_exponent x = e - 52" using xpos by (simp add: ulp_exponent_def e_def)
      have xe: "2 powi e \<le> x" using ilog2_bounds[OF xpos] by (simp add: e_def)
      show ?thesis
      proof (cases "x = 2 powi e")
        case pw: True
        have "fl (2 powi e) = 2 powi e" using True by (intro fl_pow2) simp
        then have "fl x = x" using pw by simp
        moreover have "0 < 1 / (of_int b :: rat)" using bpos by simp
        ultimately have "fl x < of_int k + 1" using xk by linarith
        then show ?thesis by (simp only: x_def k_def)
      next
        case False
        then have "2 powi e < x" using xe by simp
        then have "(2::rat) powi e * of_int b < of_int a" using bpos by (simp add: x_def pos_less_divide_eq)
        also have "(of_int a :: rat) \<le> of_int (2 ^ 53)" using assms(2) by (simp only: of_int_le_iff)
        also have "(of_int (2 ^ 53) :: rat) = 2 powi e * 2 powi (53 - e)"
          using pow2_split[of 53 "53 - e"] by (simp add: mult.commute)
        finally have "(2::rat) powi e * of_int b < 2 powi e * 2 powi (53 - e)" .
        then have "(of_int b :: rat) < 2 powi (53 - e)"
          by (rule mult_less_cancel_left_pos[THEN iffD1, rotated]) simp
        then have "1 / 2 powi (53 - e) < 1 / (of_int b :: rat)"
          using bpos by (intro divide_strict_left_mono) auto
        moreover have "1 / 2 powi (53 - e) = (2::rat) powi (e - 52 - 1)"
          using power_int_minus_divide[of "2::rat" "53 - e"] by simp
        ultimately have "(2::rat) powi (ulp_exponent x - 1) < 1 / of_int b" by (simp add: q)
        then have "fl x < x + 1 / of_int b" using fl_error[OF xpos] by linarith
        then have "fl x < of_int k + 1" using xk by linarith
        then show ?thesis by (simp only: x_def k_def)
      qed
    qed
  qed
qed

lemma floor_fl_div:
  assumes "0 \<le> a" "a \<le> 2 ^ 53" "0 < b"
  shows "\<lfloor>fl (of_int a / of_int b)\<rfloor> = a div b"
proof -
  define k where "k = a div b"
  have k0: "0 \<le> k" using assms by (simp add: k_def pos_imp_zdiv_nonneg_iff)
  have ka: "k \<le> a" using assms zdiv_mono2[of a 1 b] unfolding k_def by simp
  have "\<lfloor>(of_int a :: rat) / of_int b\<rfloor> = k" by (simp add: k_def floor_divide_of_int_eq)
  then have kx: "of_int k \<le> (of_int a :: rat) / of_int b" by (metis of_int_floor_le)
  have "fl (of_int k) \<le> fl (of_int a / of_int b)" using k0 kx by (intro fl_mono) auto
  moreover have "fl (of_int k) = of_int k" using k0 ka assms by (intro fl_of_int) auto
  ultimately have lo: "of_int k \<le> fl (of_int a / of_int b)" by simp
  have hi: "fl (of_int a / of_int b) < of_int k + 1"
    using fl_div_less_succ[OF assms] by (simp add: k_def)
  show ?thesis using lo hi unfolding k_def[symmetric] by (intro floor_unique) auto
qed



subsection \<open>\<^verbatim>\<open>int(a / b)\<close> on non-negative ints\<close>

lemma int_truediv_Inr:
  assumes "0 \<le> a" "0 < b"
  shows "int_truediv a b = Inr v \<longleftrightarrow>
    fl (of_int a / of_int b) < 2 ^ 1024 \<and> v = \<lfloor>fl (of_int a / of_int b)\<rfloor>"
proof -
  have "0 \<le> fl (of_int a / of_int b)" using assms by (intro fl_nonneg) simp
  then show ?thesis using assms
    by (auto simp: int_truediv_def py_truediv_def int_of_float_def Let_def)
qed

lemma int_truediv_exact:
  assumes "0 \<le> a" "a \<le> 2 ^ 53" "0 < b"
  shows "int_truediv a b = Inr (a div b)"
proof -
  have "a div b \<le> a" using assms zdiv_mono2[of a 1 b] by simp
  then have "a div b + 1 \<le> 2 ^ 53 + 1" using assms by linarith
  then have "(of_int (a div b + 1) :: rat) \<le> of_int (2 ^ 53 + 1)" by (simp only: of_int_le_iff)
  then have "(of_int (a div b) :: rat) + 1 \<le> 2 ^ 53 + 1" by simp
  also have "\<dots> < (2::rat) ^ 1024" by simp
  finally have "fl (of_int a / of_int b) < 2 ^ 1024"
    using fl_div_less_succ[OF assms] by linarith
  then show ?thesis using assms by (simp add: int_truediv_Inr floor_fl_div)
qed

lemma int_truediv_nonneg:
  assumes "0 \<le> a" "0 < b" "int_truediv a b = Inr v"
  shows "0 \<le> v"
proof -
  have "0 \<le> fl (of_int a / of_int b)" using assms by (intro fl_nonneg) simp
  then show ?thesis using assms by (simp add: int_truediv_Inr)
qed

lemma int_truediv_fixed:
  assumes "0 \<le> a" "0 < b" "int_truediv a b = Inr v"
  shows "fl (of_int v) = of_int v"
proof -
  have "(0::rat) \<le> of_int a / of_int b" using assms by simp
  then show ?thesis using assms floor_fl_repr[of "of_int a / of_int b"]
    by (simp add: int_truediv_Inr)
qed

lemma quotient_le:
  assumes "0 < b" "0 < d" "a * d \<le> c * b"
  shows "(of_int a :: rat) / of_int b \<le> of_int c / of_int d"
proof -
  have "(of_int (a * d) :: rat) \<le> of_int (c * b)" using assms(3) by (simp only: of_int_le_iff)
  then show ?thesis using assms by (simp add: field_simps)
qed

lemma int_truediv_mono:
  assumes "0 \<le> a" "0 < b" "0 < d" "a * d \<le> c * b"
    and "int_truediv c d = Inr w"
  shows "\<exists>v. int_truediv a b = Inr v \<and> v \<le> w"
proof -
  have q: "(of_int a :: rat) / of_int b \<le> of_int c / of_int d"
    using assms by (intro quotient_le)
  have a0: "(0::rat) \<le> of_int a / of_int b" using assms by simp
  have c0: "0 \<le> c"
  proof (rule ccontr)
    assume "\<not> 0 \<le> c"
    then have "c * b < 0" using assms by (simp add: mult_neg_pos)
    moreover have "0 \<le> a * d" using assms by simp
    ultimately show False using assms by linarith
  qed
  have m: "fl (of_int a / of_int b) \<le> fl (of_int c / of_int d)" using a0 q by (rule fl_mono)
  have w: "fl (of_int c / of_int d) < 2 ^ 1024" "w = \<lfloor>fl (of_int c / of_int d)\<rfloor>"
    using assms c0 by (simp_all add: int_truediv_Inr)
  have "fl (of_int a / of_int b) < 2 ^ 1024" using m w by linarith
  moreover have "\<lfloor>fl (of_int a / of_int b)\<rfloor> \<le> w" using m w by (simp add: floor_mono)
  ultimately show ?thesis using assms by (simp add: int_truediv_Inr)
qed

lemma int_truediv_ge:
  assumes "0 \<le> m" "fl (of_int m) = of_int m" "0 < b" "m * b \<le> a"
    and "int_truediv a b = Inr v"
  shows "m \<le> v"
proof -
  have a0: "0 \<le> a" using assms by (meson mult_nonneg_nonneg order_trans less_imp_le)
  have "(of_int m :: rat) / of_int 1 \<le> of_int a / of_int b"
    using assms by (intro quotient_le) auto
  then have "(of_int m :: rat) \<le> of_int a / of_int b" by simp
  then have "fl (of_int m) \<le> fl (of_int a / of_int b)" using assms(1) by (intro fl_mono) auto
  then have "of_int m \<le> fl (of_int a / of_int b)" by (simp add: assms(2))
  then have "m \<le> \<lfloor>fl (of_int a / of_int b)\<rfloor>" by (simp add: le_floor_iff)
  then show ?thesis using assms a0 by (simp add: int_truediv_Inr)
qed

lemma pow2_below_int:
  assumes "1 \<le> a"
  shows "\<exists>e. 0 \<le> e \<and> 2 powi e \<le> (of_int a :: rat) \<and> (of_int a :: rat) < 2 * 2 powi e"
proof -
  define e where "e = ilog2 (of_int a)"
  have apos: "(0::rat) < of_int a" using assms by simp
  have b: "2 powi e \<le> (of_int a :: rat)" "(of_int a :: rat) < 2 powi (e + 1)"
    using ilog2_bounds[OF apos] by (simp_all add: e_def)
  have "(1::rat) \<le> of_int a" using assms by simp
  then have "(2::rat) powi 0 < 2 powi (e + 1)" using b by simp
  then have "0 \<le> e" by (simp only: pow2_less_iff)
  moreover have "(2::rat) powi (e + 1) = 2 * 2 powi e" by (simp add: power_int_add)
  ultimately show ?thesis using b by auto
qed

lemma int_truediv_le:
  assumes "0 \<le> a" "2 \<le> b" "int_truediv a b = Inr v"
  shows "v \<le> a"
proof (cases "a = 0")
  case True
  then show ?thesis using assms by (simp add: int_truediv_Inr fl_zero)
next
  case False
  then have a1: "1 \<le> a" using assms by simp
  obtain e where e: "0 \<le> e" "2 powi e \<le> (of_int a :: rat)" "(of_int a :: rat) < 2 * 2 powi e"
    using pow2_below_int[OF a1] by blast
  have bpos: "(0::rat) < of_int b" using assms by simp
  have "a * 2 \<le> a * b" using assms by (intro mult_left_mono) auto
  then have "(of_int a :: rat) / of_int b \<le> of_int a / of_int 2"
    using assms by (intro quotient_le) auto
  also have "\<dots> \<le> 2 powi e" using e by simp
  finally have "fl (of_int a / of_int b) \<le> fl (2 powi e)"
    using assms bpos by (intro fl_mono) auto
  also have "\<dots> = 2 powi e" using e by (intro fl_pow2) simp
  also have "\<dots> \<le> of_int a" by (rule e)
  finally have "\<lfloor>fl (of_int a / of_int b)\<rfloor> \<le> a" by (simp add: floor_le_iff)
  then show ?thesis using assms by (simp add: int_truediv_Inr)
qed


section \<open>Properties of \<^verbatim>\<open>get_rate\<close>\<close>

subsection \<open>The loop\<close>

lemma rate_loop_length:
  "rate_loop N js acc resto = Inr c \<Longrightarrow> length c = length acc + length js"
proof (induction js arbitrary: acc resto)
  case Nil
  then show ?case by simp
next
  case (Cons j js)
  then show ?case by (auto split: sum.splits)
qed

lemma sorted_wrt_ge_hd:
  "sorted_wrt (\<lambda>a b. b \<le> a) ys \<Longrightarrow> ys \<noteq> [] \<Longrightarrow> y \<in> set ys \<Longrightarrow> y \<le> hd (ys :: int list)"
  by (cases ys) auto

lemma rate_loop_inv:
  assumes "rate_loop N js acc resto = Inr c" "0 \<le> resto" "resto = N - sum_list acc"
    and "\<forall>j\<in>set js. 2 \<le> j" "sorted js"
  shows "\<exists>ys. c = acc @ ys \<and> length ys = length js
    \<and> (\<forall>y\<in>set ys. 0 \<le> y \<and> fl (of_int y) = of_int y)
    \<and> sum_list ys \<le> resto
    \<and> sorted_wrt (\<lambda>a b. b \<le> a) ys
    \<and> (js \<noteq> [] \<longrightarrow> int_truediv resto (hd js) = Inr (hd ys))"
  using assms
proof (induction js arbitrary: acc resto)
  case Nil
  then show ?case by simp
next
  case (Cons j js)
  have j2: "2 \<le> j" using Cons.prems(4) by simp
  obtain q where q: "int_truediv resto j = Inr q"
    and rest: "rate_loop N js (acc @ [q]) (N - sum_list (acc @ [q])) = Inr c"
    using Cons.prems(1) by (auto split: sum.splits)
  define resto' where "resto' = N - sum_list (acc @ [q])"
  have r': "resto' = resto - q" using Cons.prems(3) by (simp add: resto'_def)
  have jpos: "0 < j" using j2 by simp
  have q0: "0 \<le> q" using Cons.prems(2) jpos q by (rule int_truediv_nonneg)
  have qf: "fl (of_int q) = of_int q" using Cons.prems(2) jpos q by (rule int_truediv_fixed)
  have qle: "q \<le> resto" using Cons.prems(2) j2 q by (rule int_truediv_le)
  have r0: "0 \<le> resto'" using qle by (simp add: r')
  have js2: "\<forall>j\<in>set js. 2 \<le> j" using Cons.prems(4) by simp
  have jss: "sorted js" using Cons.prems(5) by simp
  have rest': "rate_loop N js (acc @ [q]) resto' = Inr c" using rest by (simp only: resto'_def)
  have "\<exists>ys. c = (acc @ [q]) @ ys \<and> length ys = length js
    \<and> (\<forall>y\<in>set ys. 0 \<le> y \<and> fl (of_int y) = of_int y)
    \<and> sum_list ys \<le> resto'
    \<and> sorted_wrt (\<lambda>a b. b \<le> a) ys
    \<and> (js \<noteq> [] \<longrightarrow> int_truediv resto' (hd js) = Inr (hd ys))"
    by (rule Cons.IH[OF rest' r0 resto'_def js2 jss])
  then obtain ys where ysc: "c = (acc @ [q]) @ ys \<and> length ys = length js
    \<and> (\<forall>y\<in>set ys. 0 \<le> y \<and> fl (of_int y) = of_int y)
    \<and> sum_list ys \<le> resto'
    \<and> sorted_wrt (\<lambda>a b. b \<le> a) ys
    \<and> (js \<noteq> [] \<longrightarrow> int_truediv resto' (hd js) = Inr (hd ys))" ..
  have ys: "c = (acc @ [q]) @ ys" "length ys = length js"
    "\<forall>y\<in>set ys. 0 \<le> y \<and> fl (of_int y) = of_int y"
    "sum_list ys \<le> resto'" "sorted_wrt (\<lambda>a b. b \<le> a) ys"
    "js \<noteq> [] \<longrightarrow> int_truediv resto' (hd js) = Inr (hd ys)"
    using ysc by blast+
  have below: "\<forall>y\<in>set ys. y \<le> q"
  proof (cases "js = []")
    case True
    then show ?thesis using ys(2) by simp
  next
    case False
    then have ne: "ys \<noteq> []" using ys(2) by auto
    have hd: "int_truediv resto' (hd js) = Inr (hd ys)" using ys(6) False by simp
    have jh: "j \<le> hd js" using Cons.prems(5) False by (cases js) auto
    have "resto' * j \<le> resto * j" using r' q0 j2 by (intro mult_right_mono) auto
    also have "\<dots> \<le> resto * hd js" using jh Cons.prems(2) by (intro mult_left_mono) auto
    finally have le: "resto' * j \<le> resto * hd js" .
    have hpos: "0 < hd js" using jh j2 by simp
    obtain v where v: "int_truediv resto' (hd js) = Inr v" "v \<le> q"
      using int_truediv_mono[OF r0 hpos jpos le q] by blast
    then have hq: "hd ys \<le> q" using hd by simp
    show ?thesis
    proof
      fix y assume "y \<in> set ys"
      then have "y \<le> hd ys" by (rule sorted_wrt_ge_hd[OF ys(5) ne])
      then show "y \<le> q" using hq by linarith
    qed
  qed
  show ?case
  proof (intro exI[of _ "q # ys"] conjI impI)
    show "c = acc @ (q # ys)" using ys(1) by simp
    show "length (q # ys) = length (j # js)" using ys(2) by simp
    show "\<forall>y\<in>set (q # ys). 0 \<le> y \<and> fl (of_int y) = of_int y"
      using ys(3) q0 qf by simp
    show "sum_list (q # ys) \<le> resto" using ys(4) r' by simp
    show "sorted_wrt (\<lambda>a b. b \<le> a) (q # ys)" using ys(5) below by simp
    show "int_truediv resto (hd (j # js)) = Inr (hd (q # ys))" using q by simp
  qed
qed


subsection \<open>The two plans\<close>

lemma range_2_facts:
  assumes "1 < k"
  shows "\<forall>j\<in>set [2..k + 1]. 2 \<le> j" "sorted [2..k + 1]" "length [2..k + 1] = nat k"
  using assms by auto

lemma min_times_length_le_sum:
  "(\<forall>y\<in>set c. m \<le> y) \<Longrightarrow> m * int (length c) \<le> sum_list (c :: int list)"
proof (induction c)
  case Nil
  then show ?case by simp
next
  case (Cons x c)
  then have "m * int (length c) \<le> sum_list c" and "m \<le> x" by simp_all
  then show ?case by (simp add: algebra_simps)
qed


lemma get_rate_Inr:
  "get_rate N k n_min = Inr r \<longleftrightarrow>
     1 < N \<and> 1 < k \<and>
     (\<exists>rate_c rate_s. rate_loop N [2..k + 1] [] N = Inr rate_c
        \<and> uniform_plan rate_c k = Inr rate_s
        \<and> rate_check rate_s rate_c n_min = Inr True
        \<and> r = [rate_s, rate_c])"
  by (auto simp: get_rate_def rate_plans_def split: sum.splits)

text \<open>What the two plans look like whenever they are computed.\<close>

lemma plans_shape:
  assumes "1 < N" "1 < k"
    and c: "rate_loop N [2..k + 1] [] N = Inr rate_c"
    and s: "uniform_plan rate_c k = Inr rate_s"
  shows "length rate_c = nat k"
    and "\<forall>y\<in>set rate_c. 0 \<le> y"
    and "sum_list rate_c \<le> N"
    and "sorted_wrt (\<lambda>a b. b \<le> a) rate_c"
    and "\<exists>sv. rate_s = replicate (nat k) sv \<and> int_truediv (sum_list rate_c) k = Inr sv
           \<and> 0 \<le> sv \<and> Min (set rate_c) \<le> sv"
proof -
  have N0: "0 \<le> N" using assms by simp
  have "\<exists>ys. rate_c = [] @ ys \<and> length ys = length [2..k + 1]
    \<and> (\<forall>y\<in>set ys. 0 \<le> y \<and> fl (of_int y) = of_int y)
    \<and> sum_list ys \<le> N
    \<and> sorted_wrt (\<lambda>a b. b \<le> a) ys
    \<and> ([2..k + 1] \<noteq> [] \<longrightarrow> int_truediv N (hd [2..k + 1]) = Inr (hd ys))"
    using range_2_facts(1,2)[OF assms(2)] by (intro rate_loop_inv[OF c N0]) simp_all
  then have inv: "length rate_c = length [2..k + 1]"
    "\<forall>y\<in>set rate_c. 0 \<le> y \<and> fl (of_int y) = of_int y"
    "sum_list rate_c \<le> N" "sorted_wrt (\<lambda>a b. b \<le> a) rate_c"
    by simp_all
  show len: "length rate_c = nat k" using inv(1) range_2_facts(3)[OF assms(2)] by simp
  show nonneg: "\<forall>y\<in>set rate_c. 0 \<le> y" using inv(2) by simp
  show "sum_list rate_c \<le> N" by (rule inv(3))
  show "sorted_wrt (\<lambda>a b. b \<le> a) rate_c" by (rule inv(4))
  have kpos: "0 < k" using assms by simp
  obtain sv where sv: "int_truediv (sum_list rate_c) k = Inr sv" "rate_s = replicate (nat k) sv"
    using s kpos by (auto simp: uniform_plan_def split: sum.splits)
  have sum0: "0 \<le> sum_list rate_c" using nonneg by (simp add: sum_list_nonneg)
  have sv0: "0 \<le> sv" using sum0 kpos sv(1) by (rule int_truediv_nonneg)
  have ne: "rate_c \<noteq> []" using len assms by auto
  define m where "m = Min (set rate_c)"
  have min: "m \<in> set rate_c" using ne unfolding m_def by (intro Min_in) auto
  have mle: "\<forall>y\<in>set rate_c. m \<le> y" unfolding m_def by simp
  have "m * int (length rate_c) \<le> sum_list rate_c" using mle by (rule min_times_length_le_sum)
  then have mk: "m * k \<le> sum_list rate_c" using len kpos by simp
  have m0: "0 \<le> m" and mf: "fl (of_int m) = of_int m" using inv(2) min by simp_all
  have "m \<le> sv" using m0 mf kpos mk sv(1) by (rule int_truediv_ge)
  then show "\<exists>sv. rate_s = replicate (nat k) sv \<and> int_truediv (sum_list rate_c) k = Inr sv
           \<and> 0 \<le> sv \<and> Min (set rate_c) \<le> sv"
    using sv sv0 unfolding m_def by blast
qed


subsection \<open>The final assertion, and the claims on the result\<close>


lemma rate_plans_10_3: "rate_plans 10 3 = Inr ([2, 2, 2], [5, 1, 1])"
  by (simp add: rate_plans_def int_truediv_exact uniform_plan_def eval_nat_numeral)


lemma get_rate_10_3_1: "get_rate 10 3 1 = Inr [[2, 2, 2], [5, 1, 1]]"
  by (simp add: get_rate_def rate_plans_10_3 rate_check_def py_min_def)

lemma rate_plans_Inr:
  "rate_plans N k = Inr (rate_s, rate_c) \<longleftrightarrow>
     rate_loop N [2..k + 1] [] N = Inr rate_c \<and> uniform_plan rate_c k = Inr rate_s"
  by (auto simp: rate_plans_def split: sum.splits)

lemma get_rate_Inr_plans:
  assumes "get_rate N k n_min = Inr r"
  shows "1 < N \<and> 1 < k \<and> (\<exists>rate_s rate_c. r = [rate_s, rate_c] \<and> rate_plans N k = Inr (rate_s, rate_c))"
  using assms by (auto simp: get_rate_Inr rate_plans_Inr)



text \<open>
  C6, as stated, fails: the first component of the result is the uniform plan and the
  second one the declining plan.
\<close>

theorem get_rate_order_counterexample:
  "get_rate 10 3 1 = Inr [[2, 2, 2], [5, 1, 1]]
   \<and> rate_loop 10 [2..3 + 1] [] 10 = Inr [5, 1, 1]
   \<and> uniform_plan [5, 1, 1] 3 = Inr [2, 2, 2]"
  using get_rate_10_3_1 rate_plans_10_3 by (simp add: rate_plans_Inr)

text \<open>
  C6, amended. Whenever \<^verbatim>\<open>get_rate\<close> succeeds it returns the two plans in the order
  (uniform, declining): the first component is the uniform plan, the second component is
  the list the loop built, and both have length \<open>k\<close>.
\<close>

theorem get_rate_returns_uniform_then_declining:
  assumes "get_rate N k n_min = Inr r"
  shows "\<exists>rate_s rate_c. r = [rate_s, rate_c]
    \<and> rate_loop N [2..k + 1] [] N = Inr rate_c
    \<and> uniform_plan rate_c k = Inr rate_s
    \<and> length rate_s = nat k \<and> length rate_c = nat k"
proof -
  obtain rate_s rate_c where r: "1 < N" "1 < k" "r = [rate_s, rate_c]"
    and pl: "rate_loop N [2..k + 1] [] N = Inr rate_c" "uniform_plan rate_c k = Inr rate_s"
    using get_rate_Inr_plans[OF assms] by (auto simp: rate_plans_Inr)
  note sh = plans_shape[OF r(1,2) pl]
  have "length rate_s = nat k" using sh(5) by auto
  then show ?thesis using r pl sh(1) by blast
qed

theorem get_rate_returns_uniform_then_declining_witness:
  "get_rate 10 3 1 = Inr [[2, 2, 2], [5, 1, 1]]
   \<and> rate_loop 10 [2..3 + 1] [] 10 = Inr [5, 1, 1]
   \<and> uniform_plan [5, 1, 1] 3 = Inr [2, 2, 2]
   \<and> length [2, 2, 2 :: int] = nat 3 \<and> length [5, 1, 1 :: int] = nat 3"
  using get_rate_returns_uniform_then_declining[OF get_rate_10_3_1] get_rate_10_3_1
  by simp

text \<open>
  C7. Whenever \<^verbatim>\<open>get_rate\<close> succeeds, the declining plan is non-increasing (each entry
  is at most its predecessor, hence at most every earlier entry) and all entries of the
  uniform plan are equal.
\<close>

theorem declining_nonincreasing_uniform_constant:
  assumes "get_rate N k n_min = Inr r"
  shows "\<exists>rate_s rate_c. r = [rate_s, rate_c] \<and> rate_plans N k = Inr (rate_s, rate_c)
    \<and> (\<forall>i. Suc i < length rate_c \<longrightarrow> rate_c ! Suc i \<le> rate_c ! i)
    \<and> sorted_wrt (\<lambda>a b. b \<le> a) rate_c
    \<and> (\<forall>x\<in>set rate_s. \<forall>y\<in>set rate_s. x = y)"
proof -
  obtain rate_s rate_c where r: "1 < N" "1 < k" "r = [rate_s, rate_c]"
    and p: "rate_plans N k = Inr (rate_s, rate_c)"
    using get_rate_Inr_plans[OF assms] by blast
  have pl: "rate_loop N [2..k + 1] [] N = Inr rate_c" "uniform_plan rate_c k = Inr rate_s"
    using p by (simp_all add: rate_plans_Inr)
  note sh = plans_shape[OF r(1,2) pl]
  have adj: "\<forall>i. Suc i < length rate_c \<longrightarrow> rate_c ! Suc i \<le> rate_c ! i"
    using sh(4) by (simp add: sorted_wrt_iff_nth_less)
  have eq: "\<forall>x\<in>set rate_s. \<forall>y\<in>set rate_s. x = y" using sh(5) by auto
  show ?thesis using r(3) p adj sh(4) eq by blast
qed

theorem declining_nonincreasing_uniform_constant_witness:
  "get_rate 10 3 1 = Inr [[2, 2, 2], [5, 1, 1]]
   \<and> rate_plans 10 3 = Inr ([2, 2, 2], [5, 1, 1])
   \<and> sorted_wrt (\<lambda>a b. b \<le> a) [5, 1, 1 :: int]"
  using declining_nonincreasing_uniform_constant[OF get_rate_10_3_1] get_rate_10_3_1
  by auto


subsection \<open>Exact quotients below \<open>2 ^ 53\<close>, and a rounded quotient above\<close>

lemma rate_loop_exact:
  assumes "0 \<le> resto" "resto \<le> 2 ^ 53" "resto = N - sum_list acc" "\<forall>j\<in>set js. 2 \<le> j"
  shows "rate_loop N js acc resto = Inr (declining_spec N js acc resto)"
  using assms
proof (induction js arbitrary: acc resto)
  case Nil
  then show ?case by simp
next
  case (Cons j js)
  have jpos: "0 < j" and j2: "2 \<le> j" using Cons.prems(4) by auto
  define q where "q = resto div j"
  have q: "int_truediv resto j = Inr q"
    unfolding q_def using Cons.prems(1,2) jpos by (rule int_truediv_exact)
  have q0: "0 \<le> q" using Cons.prems(1) jpos q by (rule int_truediv_nonneg)
  have qle: "q \<le> resto" using Cons.prems(1) j2 q by (rule int_truediv_le)
  define resto' where "resto' = N - sum_list (acc @ [q])"
  have r': "resto' = resto - q" using Cons.prems(3) by (simp add: resto'_def)
  have "rate_loop N js (acc @ [q]) resto' = Inr (declining_spec N js (acc @ [q]) resto')"
    using Cons.prems(2,4) q0 qle r' by (intro Cons.IH) (simp_all add: resto'_def)
  then show ?case using q by (simp add: resto'_def q_def)
qed

lemma uniform_plan_exact:
  assumes "0 \<le> sum_list rate_c" "sum_list rate_c \<le> 2 ^ 53" "0 < k"
  shows "uniform_plan rate_c k = Inr (uniform_spec rate_c k)"
  using assms by (simp add: uniform_plan_def uniform_spec_def int_truediv_exact)

lemma fl_eqI:
  assumes "0 < x" "2 powi e \<le> x" "x < 2 powi (e + 1)"
    and "q = max (e - 52) (- 1074)" "m = rne (x / 2 powi q)"
  shows "fl x = of_int m * 2 powi q"
proof -
  have "ilog2 x = e" using assms(1-3) by (rule ilog2_eqI)
  then have "ulp_exponent x = q" using assms(1,4) by (simp add: ulp_exponent_def)
  then show ?thesis using assms(1,5) by (simp add: fl_pos)
qed

lemma rne_half_above_2_52: "rne (9007199254740995 / 2) = 4503599627370498"
proof -
  have "\<lfloor>(9007199254740995 :: rat) / 2\<rfloor> = 4503599627370497"
    by (rule floor_unique) simp_all
  then show ?thesis by (simp add: rne_def Let_def)
qed

lemma int_truediv_above_2_53: "int_truediv 9007199254740995 2 = Inr 4503599627370498"
proof -
  have "fl (9007199254740995 / 2) = of_int 4503599627370498 * 2 powi 0"
    by (rule fl_eqI[where e = 52]) (simp_all add: rne_half_above_2_52)
  then show ?thesis by (simp add: int_truediv_Inr)
qed

lemma rate_plans_above_2_53:
  "rate_plans 9007199254740995 2 =
     Inr ([3002399751580331, 3002399751580331], [4503599627370498, 1501199875790165])"
  by (simp add: rate_plans_def int_truediv_above_2_53 int_truediv_exact uniform_plan_def
      eval_nat_numeral)

text \<open>
  C5, as stated, fails above \<open>2 ^ 53\<close>: for \<open>N = 2 ^ 53 + 3\<close> the quotient \<open>N / 2\<close> is not a
  binary64 number and is rounded up, so the first entry exceeds \<open>\<lfloor>N / 2\<rfloor>\<close>.
\<close>

theorem declining_plan_floor_counterexample:
  "get_rate 9007199254740995 2 0 =
     Inr [[3002399751580331, 3002399751580331], [4503599627370498, 1501199875790165]]
   \<and> declining_spec 9007199254740995 [2..2 + 1] [] 9007199254740995 =
     [4503599627370497, 1501199875790166]"
  by (simp add: get_rate_def rate_plans_above_2_53 rate_check_def py_min_def)

text \<open>
  C5, amended. For \<open>1 < N \<le> 2 ^ 53\<close> and \<open>k > 1\<close> on which \<^verbatim>\<open>get_rate\<close> succeeds, the
  declining plan is the specification's sequence of floor quotients and every entry of
  the uniform plan is \<open>\<lfloor>sum (declining plan) / k\<rfloor>\<close>.
\<close>

theorem get_rate_plans_are_floor_quotients:
  assumes "N \<le> 2 ^ 53" "get_rate N k n_min = Inr r"
  shows "\<exists>rate_s rate_c. r = [rate_s, rate_c]
    \<and> rate_c = declining_spec N [2..k + 1] [] N
    \<and> rate_s = uniform_spec rate_c k"
proof -
  obtain rate_s rate_c where r: "1 < N" "1 < k" "r = [rate_s, rate_c]"
    and pl: "rate_loop N [2..k + 1] [] N = Inr rate_c" "uniform_plan rate_c k = Inr rate_s"
    using get_rate_Inr_plans[OF assms(2)] by (auto simp: rate_plans_Inr)
  note sh = plans_shape[OF r(1,2) pl]
  have "rate_loop N [2..k + 1] [] N = Inr (declining_spec N [2..k + 1] [] N)"
    using r(1) assms(1) range_2_facts(1)[OF r(2)] by (intro rate_loop_exact) simp_all
  then have c: "rate_c = declining_spec N [2..k + 1] [] N" using pl(1) by simp
  have "0 \<le> sum_list rate_c" using sh(2) by (simp add: sum_list_nonneg)
  moreover have "sum_list rate_c \<le> 2 ^ 53" using sh(3) assms(1) by linarith
  ultimately have "uniform_plan rate_c k = Inr (uniform_spec rate_c k)"
    using r(2) by (intro uniform_plan_exact) simp_all
  then have s: "rate_s = uniform_spec rate_c k" using pl(2) by simp
  show ?thesis using r(3) c s by blast
qed

theorem get_rate_plans_are_floor_quotients_witness:
  "(10::int) \<le> 2 ^ 53 \<and> get_rate 10 3 1 = Inr [[2, 2, 2], [5, 1, 1]]
   \<and> declining_spec 10 [2..3 + 1] [] 10 = [5, 1, 1]
   \<and> uniform_spec [5, 1, 1] 3 = [2, 2, 2]"
  using get_rate_plans_are_floor_quotients[of 10 3 1, OF _ get_rate_10_3_1] get_rate_10_3_1
  by simp


section \<open>Properties of the generators\<close>

subsection \<open>Label blocks and index assignment\<close>

lemma count_list_replicate_eq: "count_list (replicate n x) y = (if x = y then n else 0)"
  by (induction n) auto

lemma blocks_set:
  "set (concat (map (\<lambda>i. replicate (f i) (int i)) ns)) = int ` {i \<in> set ns. 0 < f i}"
  by (induction ns) auto

lemma blocks_sorted:
  "sorted ns \<Longrightarrow> sorted (concat (map (\<lambda>i. replicate (f i) (int i)) ns))"
proof (induction ns)
  case Nil
  then show ?case by simp
next
  case (Cons n ns)
  have "\<forall>v\<in>set (concat (map (\<lambda>i. replicate (f i) (int i)) ns)). int n \<le> v"
    using Cons.prems by (auto simp: blocks_set)
  then show ?case using Cons by (simp add: sorted_append)
qed

lemma blocks_count:
  "distinct ns \<Longrightarrow> i \<in> set ns \<Longrightarrow>
   count_list (concat (map (\<lambda>i. replicate (f i) (int i)) ns)) (int i) = f i"
proof (induction ns)
  case Nil
  then show ?case by simp
next
  case (Cons n ns)
  show ?case
  proof (cases "n = i")
    case True
    then have "i \<notin> set ns" using Cons.prems by simp
    then have "int i \<notin> set (concat (map (\<lambda>i. replicate (f i) (int i)) ns))"
      by (auto simp: blocks_set)
    then have "count_list (concat (map (\<lambda>i. replicate (f i) (int i)) ns)) (int i) = 0"
      by (rule count_notin)
    then show ?thesis using True by (simp add: count_list_replicate_eq)
  next
    case False
    then show ?thesis using Cons by (simp add: count_list_replicate_eq)
  qed
qed

lemma blocks_length:
  "length (concat (map (\<lambda>i. replicate (f i) (int i)) ns)) = sum_list (map f ns)"
  by (induction ns) auto

lemma sum_list_nat_nth:
  "\<forall>m\<in>set rate. 0 \<le> m \<Longrightarrow> int (sum_list (map (\<lambda>i. nat (rate ! i)) [0..<length rate])) = sum_list rate"
proof -
  assume a: "\<forall>m\<in>set rate. 0 \<le> m"
  have "map (\<lambda>i. nat (rate ! i)) [0..<length rate] = map nat rate"
    by (rule nth_equalityI) simp_all
  moreover have "int (sum_list (map nat rate)) = sum_list rate" using a by (induction rate) auto
  ultimately show ?thesis by simp
qed

text \<open>The label blocks have the shape the specification asks of \<open>y\<close>.\<close>

lemma label_blocks_shape:
  assumes "\<forall>m\<in>set rate. 0 < m"
  shows "int (length (label_blocks rate)) = sum_list rate"
    and "sorted (label_blocks rate)"
    and "set (label_blocks rate) = {0..<int (length rate)}"
    and "\<forall>i<length rate. int (count_list (label_blocks rate) (int i)) = rate ! i"
proof -
  have nn: "\<forall>m\<in>set rate. 0 \<le> m" using assms by auto
  show "int (length (label_blocks rate)) = sum_list rate"
    unfolding label_blocks_def by (simp only: blocks_length sum_list_nat_nth[OF nn])
  show "sorted (label_blocks rate)" unfolding label_blocks_def by (rule blocks_sorted) simp
  have "{i \<in> set [0..<length rate]. 0 < nat (rate ! i)} = {0..<length rate}"
    using assms by auto
  then have "set (label_blocks rate) = int ` {0..<length rate}"
    unfolding label_blocks_def by (simp only: blocks_set)
  also have "\<dots> = {0..<int (length rate)}" by (simp add: image_int_atLeastLessThan)
  finally show "set (label_blocks rate) = {0..<int (length rate)}" .
  show "\<forall>i<length rate. int (count_list (label_blocks rate) (int i)) = rate ! i"
  proof (intro allI impI)
    fix i assume i: "i < length rate"
    have "count_list (label_blocks rate) (int i) = nat (rate ! i)"
      unfolding label_blocks_def using i by (intro blocks_count) simp_all
    moreover have "0 < rate ! i" using assms i by simp
    ultimately show "int (count_list (label_blocks rate) (int i)) = rate ! i" by simp
  qed
qed

lemma assign_at_length: "length (assign_at result idx vs) = length result"
  by (induction result idx vs rule: assign_at.induct) simp_all

lemma assign_at_set: "set (assign_at result idx vs) \<subseteq> set result \<union> set vs"
proof (induction result idx vs rule: assign_at.induct)
  case (1 result i idx v vs)
  have "set (result[i := v]) \<subseteq> insert v (set result)" by (rule set_update_subset_insert)
  then show ?case using 1 by auto
qed simp_all


subsection \<open>\<^verbatim>\<open>catbird\<close>: every loop runs to its end and appends rows of noise bits\<close>

lemma library_okD:
  assumes "library_ok lib"
  shows "\<forall>g r c. length (fst (gen_normal lib g r c)) = r
        \<and> (\<forall>row\<in>set (fst (gen_normal lib g r c)). length row = c)"
    and "\<forall>g n k. k \<le> n \<longrightarrow>
        length (fst (gen_choice lib g n k)) = k
        \<and> distinct (fst (gen_choice lib g n k))
        \<and> (\<forall>i\<in>set (fst (gen_choice lib g n k)). i < n)"
    and "\<forall>g p n. length (fst (gen_binomial lib g p n)) = n
        \<and> (\<forall>v\<in>set (fst (gen_binomial lib g p n)). v = 0 \<or> v = 1)"
    and "\<forall>g. 0 \<le> fst (gen_random_sample lib g) \<and> fst (gen_random_sample lib g) < 1"
    and "\<forall>g a b. 0 \<le> fst (gen_beta lib g a b) \<and> fst (gen_beta lib g a b) \<le> 1"
  using assms by (simp_all add: library_ok_def)

lemma lib_normal:
  assumes "library_ok lib"
  shows "length (fst (gen_normal lib g r c)) = r"
    and "\<forall>row\<in>set (fst (gen_normal lib g r c)). length row = c"
  using library_okD(1)[OF assms, rule_format, of g r c] by simp_all

lemma lib_choice:
  assumes "library_ok lib" "k \<le> n"
  shows "length (fst (gen_choice lib g n k)) = k"
    and "distinct (fst (gen_choice lib g n k))"
    and "\<forall>i\<in>set (fst (gen_choice lib g n k)). i < n"
  using library_okD(2)[OF assms(1), rule_format, OF assms(2), of g] by simp_all

lemma lib_binomial:
  assumes "library_ok lib"
  shows "length (fst (gen_binomial lib g p n)) = n"
    and "\<forall>v\<in>set (fst (gen_binomial lib g p n)). v = 0 \<or> v = 1"
  using library_okD(3)[OF assms, rule_format, of g p n] by simp_all

lemma lib_random_sample:
  assumes "library_ok lib"
  shows "0 \<le> fst (gen_random_sample lib g)" and "fst (gen_random_sample lib g) < 1"
  using library_okD(4)[OF assms, rule_format, of g] by simp_all

lemma lib_beta:
  assumes "library_ok lib"
  shows "0 \<le> fst (gen_beta lib g a b)" and "fst (gen_beta lib g a b) \<le> 1"
  using library_okD(5)[OF assms, rule_format, of g a b] by simp_all

lemma discretize_binary: "discretize x thr = 0 \<or> discretize x thr = 1"
  by (simp add: discretize_def)

lemma catbird_example_shape:
  assumes ok: "library_ok lib" and f: "0 < f" and n: "0 \<le> n_feat" and e: "0 \<le> eps" "eps \<le> 1"
  shows "\<exists>row rs1. catbird_example lib rs n_feat f W idx lmbd eps = Inr (row, rs1)
    \<and> length row = nat n_feat \<and> (\<forall>v\<in>set row. v = 0 \<or> v = 1)
    \<and> snd rs1 = snd rs @ [Normal 1 (nat f), Binomial (nat n_feat)]"
proof -
  obtain A g1 where A: "gen_normal lib (fst rs) 1 (nat f) = (A, g1)" by fastforce
  define rs1 where "rs1 = (g1, snd rs @ [Normal 1 (nat f)])"
  have s1: "rs_normal lib rs 1 f = Inr (A, rs1)" using f A by (simp add: rs_normal_def rs1_def)
  obtain result g2 where R: "gen_binomial lib g1 eps (nat n_feat) = (result, g2)" by fastforce
  define rs2 where "rs2 = (g2, snd rs1 @ [Binomial (nat n_feat)])"
  have s2: "rs_binomial lib rs1 eps n_feat = Inr (result, rs2)"
    using e n R by (simp add: rs_binomial_def rs1_def rs2_def)
  have rl: "length result = nat n_feat" using lib_binomial(1)[OF ok, of g1 eps "nat n_feat"] R by simp
  have rb: "\<forall>v\<in>set result. v = 0 \<or> v = 1"
    using lib_binomial(2)[OF ok, of g1 eps "nat n_feat"] R by simp
  define vals where "vals = map (\<lambda>x. discretize x lmbd)
    (map (\<lambda>x. norm_cdf lib (fl (x / float_sqrt lib (of_int f)))) (matmul_row lib (hd A) W))"
  have vb: "\<forall>v\<in>set vals. v = 0 \<or> v = 1" unfolding vals_def using discretize_binary by auto
  define row where "row = assign_at result idx vals"
  have ex: "catbird_example lib rs n_feat f W idx lmbd eps = Inr (row, rs2)"
    using f s1 s2 by (simp add: catbird_example_def Let_def row_def vals_def)
  have "length row = nat n_feat" by (simp add: row_def assign_at_length rl)
  moreover have "\<forall>v\<in>set row. v = 0 \<or> v = 1"
    using assign_at_set[of result idx vals] rb vb unfolding row_def by blast
  moreover have "snd rs2 = snd rs @ [Normal 1 (nat f), Binomial (nat n_feat)]"
    by (simp add: rs2_def rs1_def)
  ultimately show ?thesis using ex by blast
qed

lemma catbird_examples_shape:
  assumes ok: "library_ok lib" and f: "0 < f" and n: "0 \<le> n_feat" and e: "0 \<le> eps" "eps \<le> 1"
  shows "\<exists>rows rs1. catbird_examples lib m rs n_feat f W idx lmbd eps = Inr (rows, rs1)
    \<and> length rows = m
    \<and> (\<forall>row\<in>set rows. length row = nat n_feat \<and> (\<forall>v\<in>set row. v = 0 \<or> v = 1))
    \<and> snd rs1 = snd rs @ concat (replicate m [Normal 1 (nat f), Binomial (nat n_feat)])"
proof (induction m arbitrary: rs)
  case 0
  then show ?case by simp
next
  case (Suc m)
  obtain row rs1 where row: "catbird_example lib rs n_feat f W idx lmbd eps = Inr (row, rs1)"
    "length row = nat n_feat" "\<forall>v\<in>set row. v = 0 \<or> v = 1"
    "snd rs1 = snd rs @ [Normal 1 (nat f), Binomial (nat n_feat)]"
    using catbird_example_shape[OF ok f n e, of rs W idx lmbd] by blast
  obtain rows rs2 where rows: "catbird_examples lib m rs1 n_feat f W idx lmbd eps = Inr (rows, rs2)"
    "length rows = m"
    "\<forall>row\<in>set rows. length row = nat n_feat \<and> (\<forall>v\<in>set row. v = 0 \<or> v = 1)"
    "snd rs2 = snd rs1 @ concat (replicate m [Normal 1 (nat f), Binomial (nat n_feat)])"
    using Suc[of rs1] by blast
  have "catbird_examples lib (Suc m) rs n_feat f W idx lmbd eps = Inr (row # rows, rs2)"
    using row(1) rows(1) by simp
  moreover have "length (row # rows) = Suc m" using rows(2) by simp
  moreover have "\<forall>r\<in>set (row # rows). length r = nat n_feat \<and> (\<forall>v\<in>set r. v = 0 \<or> v = 1)"
    using row(2,3) rows(3) by simp
  moreover have "snd rs2 = snd rs @ concat (replicate (Suc m) [Normal 1 (nat f), Binomial (nat n_feat)])"
    using row(4) rows(4) by simp
  ultimately show ?case by blast
qed

lemma catbird_cluster_shape:
  assumes ok: "library_ok lib" and f: "0 < f" "f \<le> n_feat" and e: "0 \<le> eps" "eps \<le> 1"
  shows "\<exists>rows rs1. catbird_cluster lib rs n_feat f m lmbd eps = Inr (rows, rs1)
    \<and> length rows = nat m
    \<and> (\<forall>row\<in>set rows. length row = nat n_feat \<and> (\<forall>v\<in>set row. v = 0 \<or> v = 1))
    \<and> snd rs1 = snd rs @ catbird_cluster_draws (nat n_feat) (nat f) (nat m)"
proof -
  have n: "0 \<le> n_feat" using f by simp
  obtain W g1 where W: "gen_normal lib (fst rs) (nat f) (nat f) = (W, g1)" by fastforce
  define rs1 where "rs1 = (g1, snd rs @ [Normal (nat f) (nat f)])"
  have s1: "rs_normal lib rs f f = Inr (W, rs1)" using f W by (simp add: rs_normal_def rs1_def)
  obtain idx g2 where I: "gen_choice lib g1 (nat n_feat) (nat f) = (idx, g2)" by fastforce
  define rs2 where "rs2 = (g2, snd rs1 @ [Choice (nat n_feat) (nat f)])"
  have s2: "rs_choice lib rs1 n_feat f = Inr (idx, rs2)"
    using f I by (simp add: rs_choice_def rs1_def rs2_def)
  obtain rows rs3 where rows: "catbird_examples lib (nat m) rs2 n_feat f W idx lmbd eps = Inr (rows, rs3)"
    "length rows = nat m"
    "\<forall>row\<in>set rows. length row = nat n_feat \<and> (\<forall>v\<in>set row. v = 0 \<or> v = 1)"
    "snd rs3 = snd rs2 @ concat (replicate (nat m) [Normal 1 (nat f), Binomial (nat n_feat)])"
    using catbird_examples_shape[OF ok f(1) n e, of "nat m" rs2 W idx lmbd] by blast
  have "catbird_cluster lib rs n_feat f m lmbd eps = Inr (rows, rs3)"
    using s1 s2 rows(1) by (simp add: catbird_cluster_def)
  moreover have "snd rs3 = snd rs @ catbird_cluster_draws (nat n_feat) (nat f) (nat m)"
    using rows(4) by (simp add: rs2_def rs1_def catbird_cluster_draws_def)
  ultimately show ?thesis using rows(2,3) by blast
qed

lemma catbird_clusters_shape:
  assumes ok: "library_ok lib" and e: "0 \<le> eps" "eps \<le> 1"
    and fs: "\<forall>i\<in>set ns. i < length feat_sig \<and> 0 < feat_sig ! i \<and> feat_sig ! i \<le> n_feat"
  shows "\<exists>X y rs1. catbird_clusters lib rs n_feat feat_sig rate lmbd eps ns = Inr (X, y, rs1)
    \<and> length X = length y
    \<and> y = concat (map (\<lambda>i. replicate (nat (rate ! i)) (int i)) ns)
    \<and> (\<forall>row\<in>set X. length row = nat n_feat \<and> (\<forall>v\<in>set row. v = 0 \<or> v = 1))
    \<and> snd rs1 = snd rs @ concat (map (\<lambda>i. catbird_cluster_draws (nat n_feat)
         (nat (feat_sig ! i)) (nat (rate ! i))) ns)"
  using fs
proof (induction ns arbitrary: rs)
  case Nil
  then show ?case by simp
next
  case (Cons i ns)
  have i: "i < length feat_sig" "0 < feat_sig ! i" "feat_sig ! i \<le> n_feat" using Cons.prems by simp_all
  obtain rows rs1 where rows:
    "catbird_cluster lib rs n_feat (feat_sig ! i) (rate ! i) lmbd eps = Inr (rows, rs1)"
    "length rows = nat (rate ! i)"
    "\<forall>row\<in>set rows. length row = nat n_feat \<and> (\<forall>v\<in>set row. v = 0 \<or> v = 1)"
    "snd rs1 = snd rs @ catbird_cluster_draws (nat n_feat) (nat (feat_sig ! i)) (nat (rate ! i))"
    using catbird_cluster_shape[OF ok i(2,3) e, of rs "rate ! i" lmbd] by blast
  have "\<forall>i\<in>set ns. i < length feat_sig \<and> 0 < feat_sig ! i \<and> feat_sig ! i \<le> n_feat"
    using Cons.prems by simp
  then obtain X y rs2 where rest:
    "catbird_clusters lib rs1 n_feat feat_sig rate lmbd eps ns = Inr (X, y, rs2)"
    "length X = length y"
    "y = concat (map (\<lambda>i. replicate (nat (rate ! i)) (int i)) ns)"
    "\<forall>row\<in>set X. length row = nat n_feat \<and> (\<forall>v\<in>set row. v = 0 \<or> v = 1)"
    "snd rs2 = snd rs1 @ concat (map (\<lambda>i. catbird_cluster_draws (nat n_feat)
         (nat (feat_sig ! i)) (nat (rate ! i))) ns)"
    using Cons.IH[of rs1] by blast
  have "catbird_clusters lib rs n_feat feat_sig rate lmbd eps (i # ns)
      = Inr (rows @ X, replicate (length rows) (int i) @ y, rs2)"
    using i(1) rows(1) rest(1) by simp
  moreover have "length (rows @ X) = length (replicate (length rows) (int i) @ y)"
    using rest(2) by simp
  moreover have "replicate (length rows) (int i) @ y
      = concat (map (\<lambda>i. replicate (nat (rate ! i)) (int i)) (i # ns))"
    using rows(2) rest(3) by simp
  moreover have "\<forall>row\<in>set (rows @ X). length row = nat n_feat \<and> (\<forall>v\<in>set row. v = 0 \<or> v = 1)"
    using rows(3) rest(4) by auto
  moreover have "snd rs2 = snd rs @ concat (map (\<lambda>i. catbird_cluster_draws (nat n_feat)
         (nat (feat_sig ! i)) (nat (rate ! i))) (i # ns))"
    using rows(4) rest(5) by simp
  ultimately show ?case by blast
qed


subsection \<open>\<^verbatim>\<open>catbird\<close> on valid inputs\<close>

lemma resolve_random_state_ok:
  "seed_ok random_state \<Longrightarrow> \<exists>g. resolve_random_state lib entropy random_state = Inr (g, [])"
  by (cases random_state) (simp_all add: seed_ok_def resolve_random_state_def)

lemma catbird_result:
  assumes ok: "library_ok lib" and seed: "seed_ok random_state"
    and v: "catbird_valid n feat_sig rate l ep"
  shows "\<exists>X y rs. catbird lib entropy (PyInt n) feat_sig rate (PyFloat l) (PyFloat ep) random_state
        = Inr (X, y, rs)
    \<and> dataset_shape n rate X y
    \<and> (\<forall>row\<in>set X. \<forall>v\<in>set row. v = 0 \<or> v = 1)
    \<and> snd rs = catbird_draw_order n feat_sig rate"
proof -
  have n: "1 < n" and ne: "feat_sig \<noteq> []" and len: "length feat_sig = length rate"
    and fs: "\<forall>f\<in>set feat_sig. 0 < f \<and> f \<le> n" and pos: "\<forall>m\<in>set rate. 0 < m"
    and l: "0 \<le> l" "l \<le> 1" and e: "0 \<le> ep" "ep \<le> 1"
    using v unfolding catbird_valid_def by blast+
  obtain g where g: "resolve_random_state lib entropy random_state = Inr (g, [])"
    using resolve_random_state_ok[OF seed] by blast
  have mx: "Max (set feat_sig) \<le> n" using fs ne by simp
  have idx: "\<forall>i\<in>set [0..<length rate]. i < length feat_sig \<and> 0 < feat_sig ! i \<and> feat_sig ! i \<le> n"
    using fs len by simp
  obtain X y rs where r: "catbird_clusters lib (g, []) n feat_sig rate l ep [0..<length rate] = Inr (X, y, rs)"
    "length X = length y"
    "y = concat (map (\<lambda>i. replicate (nat (rate ! i)) (int i)) [0..<length rate])"
    "\<forall>row\<in>set X. length row = nat n \<and> (\<forall>v\<in>set row. v = 0 \<or> v = 1)"
    "snd rs = snd (g, []) @ concat (map (\<lambda>i. catbird_cluster_draws (nat n)
         (nat (feat_sig ! i)) (nat (rate ! i))) [0..<length rate])"
    using catbird_clusters_shape[OF ok e idx, of "(g, [])" rate l] by blast
  have c: "catbird lib entropy (PyInt n) feat_sig rate (PyFloat l) (PyFloat ep) random_state
        = Inr (X, y, rs)"
    using g n ne mx l e r(1) by (simp add: catbird_def)
  have yb: "y = label_blocks rate" using r(3) by (simp add: label_blocks_def)
  note sh = label_blocks_shape[OF pos]
  have rows: "\<forall>row\<in>set X. int (length row) = n" using r(4) n by auto
  have "dataset_shape n rate X y"
    unfolding dataset_shape_def using r(2) rows sh unfolding yb by simp
  moreover have "snd rs = catbird_draw_order n feat_sig rate"
    using r(5) by (simp add: catbird_draw_order_def)
  ultimately show ?thesis using c r(4) by blast
qed


subsection \<open>Rounded fractions in the unit interval\<close>

lemma rne_lower: "x - 1 / 2 \<le> of_int (rne x)"
proof -
  have 1: "x < of_int \<lfloor>x\<rfloor> + 1" by linarith
  have "rne x = \<lfloor>x\<rfloor> + 1 \<or> (rne x = \<lfloor>x\<rfloor> \<and> x - of_int \<lfloor>x\<rfloor> \<le> 1 / 2)"
    unfolding rne_def Let_def by (auto simp: not_less)
  then show ?thesis
  proof
    assume "rne x = \<lfloor>x\<rfloor> + 1"
    then have "of_int (rne x) = (of_int \<lfloor>x\<rfloor> :: rat) + 1" by simp
    then show ?thesis using 1 by linarith
  next
    assume a: "rne x = \<lfloor>x\<rfloor> \<and> x - of_int \<lfloor>x\<rfloor> \<le> 1 / 2"
    then have "of_int (rne x) = (of_int \<lfloor>x\<rfloor> :: rat)" by simp
    then show ?thesis using a by linarith
  qed
qed

lemma fl_error_lower:
  assumes "0 < x"
  shows "x - 2 powi (ulp_exponent x - 1) \<le> fl x"
proof -
  define q where "q = ulp_exponent x"
  have p: "2 powi q / 2 = (2::rat) powi (q - 1)" by (simp add: power_int_diff)
  have "x - 2 powi q / 2 = (x / 2 powi q - 1 / 2) * 2 powi q" by (simp add: algebra_simps)
  also have "\<dots> \<le> of_int (rne (x / 2 powi q)) * 2 powi q"
    using rne_lower[of "x / 2 powi q"] by (intro mult_right_mono) auto
  also have "\<dots> = fl x" using assms by (simp add: fl_pos q_def)
  finally show ?thesis unfolding p by (simp only: q_def)
qed

lemma fl_one: "fl 1 = 1"
  using fl_of_int[of 1] by simp

lemma ulp_exponent_below_one:
  assumes "0 < x" "x < 1"
  shows "ulp_exponent x \<le> - 53"
proof -
  have "2 powi (ilog2 x) \<le> x" using ilog2_bounds[OF assms(1)] by simp
  then have "(2::rat) powi (ilog2 x) < 2 powi 0" using assms(2) by simp
  then have "ilog2 x < 0" by (simp only: pow2_less_iff)
  then show ?thesis using assms(1) by (simp add: ulp_exponent_def)
qed

lemma fl_unit_upper:
  assumes "0 \<le> x" "x < 1"
  shows "fl x \<le> x + 2 powi (- 54)"
proof (cases "x = 0")
  case True
  then show ?thesis by (simp add: fl_zero)
next
  case False
  then have xpos: "0 < x" using assms by simp
  have "ulp_exponent x - 1 \<le> - 54" using ulp_exponent_below_one[OF xpos assms(2)] by simp
  then have "(2::rat) powi (ulp_exponent x - 1) \<le> 2 powi (- 54)" by (simp only: pow2_le_iff)
  then show ?thesis using fl_error[OF xpos] by linarith
qed

lemma fl_unit_lower:
  assumes "0 < y" "y \<le> 1"
  shows "y - 2 powi (- 54) \<le> fl y"
proof (cases "y = 1")
  case True
  then show ?thesis by (simp add: fl_one)
next
  case False
  then have y1: "y < 1" using assms by simp
  have "ulp_exponent y - 1 \<le> - 54" using ulp_exponent_below_one[OF assms(1) y1] by simp
  then have "(2::rat) powi (ulp_exponent y - 1) \<le> 2 powi (- 54)" by (simp only: pow2_le_iff)
  then show ?thesis using fl_error_lower[OF assms(1)] by linarith
qed

lemma fl_unit_fraction:
  assumes "0 \<le> i" "i \<le> n" "0 < n"
  shows "0 \<le> fl (of_int i / of_int n)" and "fl (of_int i / of_int n) \<le> 1"
proof -
  have x0: "(0::rat) \<le> of_int i / of_int n" using assms by simp
  show "0 \<le> fl (of_int i / of_int n)" using x0 by (rule fl_nonneg)
  have "(of_int i :: rat) / of_int n \<le> 1" using assms by simp
  then have "fl (of_int i / of_int n) \<le> fl 1" using x0 by (intro fl_mono)
  then show "fl (of_int i / of_int n) \<le> 1" by (simp add: fl_one)
qed

lemma fl_strict_step:
  assumes "0 \<le> i" "i < n" "n \<le> 2 ^ 53"
  shows "fl (of_int i / of_int n) < fl (of_int (i + 1) / of_int n)"
proof (cases "n = 2 ^ 53")
  case True
  have n: "(of_int n :: rat) = 2 ^ 53" using True by simp
  have a: "(of_int i :: rat) / of_int n = of_int i * 2 powi (- 53)"
    by (simp add: n power_int_minus_divide)
  have b: "(of_int (i + 1) :: rat) / of_int n = of_int (i + 1) * 2 powi (- 53)"
    by (simp add: n power_int_minus_divide)
  have "fl (of_int i * 2 powi (- 53)) = of_int i * 2 powi (- 53)"
    using assms True by (intro fl_repr) auto
  moreover have "fl (of_int (i + 1) * 2 powi (- 53)) = of_int (i + 1) * 2 powi (- 53)"
    using assms True by (intro fl_repr) auto
  moreover have "(of_int i :: rat) * 2 powi (- 53) < of_int (i + 1) * 2 powi (- 53)"
    by (intro mult_strict_right_mono) auto
  ultimately show ?thesis by (simp only: a b)
next
  case False
  then have nlt: "n + 1 \<le> 2 ^ 53" using assms by simp
  have npos: "(0::rat) < of_int n" using assms by simp
  define x :: rat where "x = of_int i / of_int n"
  define y :: rat where "y = of_int (i + 1) / of_int n"
  have x0: "0 \<le> x" using assms by (simp add: x_def)
  have x1: "x < 1" using assms by (simp add: x_def)
  have y0: "0 < y" using assms by (simp add: y_def)
  have y1: "y \<le> 1" using assms by (simp add: y_def)
  have yx: "y = x + 1 / of_int n" by (simp add: x_def y_def add_divide_distrib)
  have "(of_int (n + 1) :: rat) \<le> of_int (2 ^ 53)" using nlt by (simp only: of_int_le_iff)
  then have "(of_int n :: rat) < 2 ^ 53" by simp
  then have "1 / (2::rat) ^ 53 < 1 / of_int n" using npos by (intro divide_strict_left_mono) auto
  moreover have "2 * (2::rat) powi (- 54) = 1 / 2 ^ 53" by (simp add: power_int_minus_divide)
  ultimately have gap: "2 * (2::rat) powi (- 54) < 1 / of_int n" by simp
  have "fl x \<le> x + 2 powi (- 54)" using x0 x1 by (rule fl_unit_upper)
  moreover have "y - 2 powi (- 54) \<le> fl y" using y0 y1 by (rule fl_unit_lower)
  ultimately have "fl x < fl y" using gap yx by linarith
  then show ?thesis by (simp only: x_def y_def)
qed

lemma fl_strict_fraction:
  assumes "0 \<le> i" "i < j" "j \<le> n" "n \<le> 2 ^ 53"
  shows "fl (of_int i / of_int n) < fl (of_int j / of_int n)"
proof -
  have npos: "(0::rat) < of_int n" using assms by simp
  have "fl (of_int i / of_int n) < fl (of_int (i + 1) / of_int n)"
    using assms by (intro fl_strict_step) auto
  also have "\<dots> \<le> fl (of_int j / of_int n)"
    using assms npos by (intro fl_mono) (auto simp: divide_right_mono)
  finally show ?thesis .
qed


subsection \<open>The bin edges and \<^verbatim>\<open>pd.cut\<close>\<close>

lemma bin_edges_length: "0 \<le> n \<Longrightarrow> length (bin_edges n) = Suc (nat n)"
  by (simp add: bin_edges_def)

lemma categories_length: "0 \<le> n \<Longrightarrow> length (categories n) = nat n"
  by (simp add: categories_def)

lemma categories_nth: "k < nat n \<Longrightarrow> categories n ! k = int k"
  by (simp add: categories_def)

lemma bin_edges_range:
  assumes "0 < n" "e \<in> set (bin_edges n)"
  shows "0 \<le> e \<and> e \<le> 1"
proof -
  obtain i where i: "0 \<le> i" "i \<le> n" "e = fl (of_int i / of_int n)"
    using assms(2) by (auto simp: bin_edges_def)
  show ?thesis using fl_unit_fraction[OF i(1,2) assms(1)] i(3) by simp
qed

lemma bin_edges_ends:
  assumes "0 < n"
  shows "0 \<in> set (bin_edges n)" and "1 \<in> set (bin_edges n)"
proof -
  have m: "(0::int) \<in> set [0..n]" "n \<in> set [0..n]" using assms by simp_all
  have "fl (of_int 0 / of_int n) \<in> set (bin_edges n)"
    unfolding bin_edges_def set_map using m(1) by (rule imageI)
  then show "0 \<in> set (bin_edges n)" by (simp add: fl_zero)
  have "fl (of_int n / of_int n) \<in> set (bin_edges n)"
    unfolding bin_edges_def set_map using m(2) by (rule imageI)
  then show "1 \<in> set (bin_edges n)" using assms by (simp add: fl_one)
qed

lemma bin_edges_strict:
  assumes "0 < n" "n \<le> 2 ^ 53"
  shows "strictly_increasing (bin_edges n)"
proof -
  have "sorted_wrt (<) [0..n]" by (simp add: strict_sorted_iff)
  then have "sorted_wrt (\<lambda>i j. fl (of_int i / of_int n) < fl (of_int j / of_int n)) [0..n]"
  proof (rule sorted_wrt_mono_rel[rotated])
    fix i j assume "i \<in> set [0..n]" "j \<in> set [0..n]" "i < j"
    then show "fl (of_int i / of_int n) < fl (of_int j / of_int n)"
      using assms(2) by (intro fl_strict_fraction) auto
  qed
  then show ?thesis by (simp add: strictly_increasing_def bin_edges_def sorted_wrt_map)
qed

lemma pd_cut_bin_edges:
  assumes "1 < n" "n \<le> 2 ^ 53"
  shows "\<exists>c. pd_cut (bin_edges n) (categories n) x = Inr c
    \<and> (c \<noteq> None \<longleftrightarrow> 0 < x \<and> x \<le> 1)
    \<and> (\<forall>k. c = Some k \<longrightarrow> 0 \<le> k \<and> k < n)"
proof -
  have npos: "0 < n" "0 \<le> n" using assms by simp_all
  define ids where "ids = length (filter (\<lambda>edge. edge < x) (bin_edges n))"
  define c where "c = (if ids = 0 \<or> ids = length (bin_edges n) then None
    else Some (categories n ! (ids - 1)))"
  have lb: "length (bin_edges n) = Suc (nat n)" by (rule bin_edges_length[OF npos(2)])
  have lc: "length (categories n) = length (bin_edges n) - 1"
    by (simp add: lb categories_length[OF npos(2)])
  have cut: "pd_cut (bin_edges n) (categories n) x = Inr c"
    using bin_edges_strict[OF npos(1) assms(2)] lc
    by (simp add: pd_cut_def Let_def c_def ids_def)
  have le: "ids \<le> length (bin_edges n)" unfolding ids_def by (rule length_filter_le)
  have zero: "ids = 0 \<longleftrightarrow> x \<le> 0"
  proof
    assume "ids = 0"
    then have "\<not> (0 < x)" using bin_edges_ends(1)[OF npos(1)]
      unfolding ids_def by (auto simp: filter_empty_conv)
    then show "x \<le> 0" by simp
  next
    assume "x \<le> 0"
    then have "\<forall>e\<in>set (bin_edges n). \<not> e < x" using bin_edges_range[OF npos(1)] by fastforce
    then show "ids = 0" unfolding ids_def by (simp add: filter_empty_conv)
  qed
  have full: "ids = length (bin_edges n) \<longleftrightarrow> 1 < x"
  proof
    assume a: "ids = length (bin_edges n)"
    show "1 < x"
    proof (rule ccontr)
      assume "\<not> 1 < x"
      then have "length (filter (\<lambda>edge. edge < x) (bin_edges n)) < length (bin_edges n)"
        using bin_edges_ends(2)[OF npos(1)] by (intro length_filter_less[of 1]) auto
      then show False using a unfolding ids_def by simp
    qed
  next
    assume "1 < x"
    then have "\<forall>e\<in>set (bin_edges n). e < x" using bin_edges_range[OF npos(1)] by fastforce
    then have "filter (\<lambda>edge. edge < x) (bin_edges n) = bin_edges n" by (simp add: filter_id_conv)
    then show "ids = length (bin_edges n)" unfolding ids_def by simp
  qed
  have some: "c \<noteq> None \<longleftrightarrow> 0 < x \<and> x \<le> 1" unfolding c_def using zero full by auto
  have range: "\<forall>k. c = Some k \<longrightarrow> 0 \<le> k \<and> k < n"
  proof (intro allI impI)
    fix k assume k: "c = Some k"
    then have i: "ids \<noteq> 0" "ids \<noteq> length (bin_edges n)" "k = categories n ! (ids - 1)"
      unfolding c_def by (auto split: if_splits)
    have "ids - 1 < nat n" using i(1,2) le lb by simp
    then have "k = int (ids - 1)" "ids - 1 < nat n" using i(3) by (simp_all add: categories_nth)
    then show "0 \<le> k \<and> k < n" by simp
  qed
  show ?thesis using cut some range by blast
qed


subsection \<open>\<^verbatim>\<open>canard\<close>: the structural parameters of a cluster\<close>

lemma float_of_int_exact:
  assumes "0 \<le> n" "n \<le> 2 ^ 53"
  shows "float_of_int n = Inr (of_int n)"
proof -
  have f: "fl (of_int n) = of_int n" using assms by (rule fl_of_int)
  have "(of_int n :: rat) \<le> of_int (2 ^ 53)" using assms(2) by (simp only: of_int_le_iff)
  then have "\<bar>of_int n :: rat\<bar> < 2 ^ 1024" using assms(1) by simp
  then show ?thesis by (simp add: float_of_int_def f)
qed

lemma controlled_size_range:
  assumes "0 \<le> n" "n \<le> 2 ^ 53" "0 \<le> eps" "eps \<le> 1"
  shows "\<exists>sz. controlled_size n eps = Inr sz \<and> 0 \<le> sz \<and> sz \<le> n
    \<and> sz = \<lfloor>fl (of_int n * fl (1 - eps))\<rfloor>"
proof -
  define y where "y = fl (1 - eps)"
  have y0: "0 \<le> y" unfolding y_def using assms by (intro fl_nonneg) simp
  have "fl (1 - eps) \<le> fl 1" using assms by (intro fl_mono) simp_all
  then have y1: "y \<le> 1" by (simp add: y_def fl_one)
  have n0: "(0::rat) \<le> of_int n" using assms by simp
  have p0: "0 \<le> of_int n * y" using n0 y0 by simp
  have "of_int n * y \<le> of_int n * 1" using n0 y1 by (intro mult_left_mono)
  then have "fl (of_int n * y) \<le> fl (of_int n)" using p0 by (intro fl_mono) simp_all
  then have hi: "fl (of_int n * y) \<le> of_int n" using assms by (simp add: fl_of_int)
  have lo: "0 \<le> fl (of_int n * y)" using p0 by (rule fl_nonneg)
  have "controlled_size n eps = Inr \<lfloor>fl (of_int n * y)\<rfloor>"
    using lo by (simp add: controlled_size_def float_of_int_exact[OF assms(1,2)] int_of_float_def y_def)
  moreover have "0 \<le> \<lfloor>fl (of_int n * y)\<rfloor>" using lo by simp
  moreover have "\<lfloor>fl (of_int n * y)\<rfloor> \<le> n" using hi by (simp add: floor_le_iff)
  ultimately show ?thesis unfolding y_def by blast
qed

lemma controlled_size_eps_one:
  assumes "0 \<le> n" "n \<le> 2 ^ 53"
  shows "controlled_size n 1 = Inr 0"
  by (simp add: controlled_size_def float_of_int_exact[OF assms] int_of_float_def fl_zero)

lemma float_of_int_lmbd:
  assumes "1 \<le> lmbd" "lmbd \<le> 2 ^ 1023"
  shows "\<exists>lf. float_of_int lmbd = Inr lf \<and> 0 \<le> lf"
proof -
  have l0: "(0::rat) \<le> of_int lmbd" using assms by simp
  have "(of_int lmbd :: rat) \<le> of_int (2 ^ 1023)" using assms(2) by (simp only: of_int_le_iff)
  then have "(of_int lmbd :: rat) \<le> 2 powi 1023" by simp
  then have "fl (of_int lmbd) \<le> fl (2 powi 1023)" using l0 by (intro fl_mono)
  also have "\<dots> = 2 powi 1023" by (intro fl_pow2) simp
  also have "\<dots> < (2::rat) ^ 1024" by simp
  finally have hi: "fl (of_int lmbd) < 2 ^ 1024" .
  have lo: "0 \<le> fl (of_int lmbd)" using l0 by (rule fl_nonneg)
  have "\<bar>fl (of_int lmbd)\<bar> < 2 ^ 1024" using hi lo by simp
  then show ?thesis using lo by (simp add: float_of_int_def)
qed

lemma shape_draw_result:
  assumes ok: "library_ok lib" and l: "1 \<le> lmbd" "lmbd \<le> 2 ^ 1023"
  shows "\<exists>v rs1. shape_draw lib lmbd rs = Inr (v, rs1) \<and> 1 \<le> v
    \<and> snd rs1 = snd rs @ [RandomSample]"
proof -
  obtain lf where lf: "float_of_int lmbd = Inr lf" "0 \<le> lf" using float_of_int_lmbd[OF l] by blast
  obtain u g where u: "gen_random_sample lib (fst rs) = (u, g)" by fastforce
  have u0: "0 \<le> u" using lib_random_sample(1)[OF ok, of "fst rs"] u by simp
  define v where "v = fl (1 + fl (lf * u))"
  have "0 \<le> fl (lf * u)" using lf(2) u0 by (intro fl_nonneg) simp
  then have "fl 1 \<le> fl (1 + fl (lf * u))" by (intro fl_mono) simp_all
  then have v1: "1 \<le> v" by (simp add: v_def fl_one)
  have "shape_draw lib lmbd rs = Inr (v, (g, snd rs @ [RandomSample]))"
    using u lf(1) by (simp add: shape_draw_def rs_random_sample_def v_def)
  then show ?thesis using v1 by simp
qed

lemma canard_shapes_result:
  assumes ok: "library_ok lib" and l: "1 \<le> lmbd" "lmbd \<le> 2 ^ 1023"
  shows "\<exists>a1 b1 rs1. canard_shapes lib lmbd idx a b rs = Inr (a1, b1, rs1)
    \<and> length a1 = length a \<and> length b1 = length b
    \<and> ((\<forall>v\<in>set a. 1 \<le> v) \<longrightarrow> (\<forall>v\<in>set a1. 1 \<le> v))
    \<and> ((\<forall>v\<in>set b. 1 \<le> v) \<longrightarrow> (\<forall>v\<in>set b1. 1 \<le> v))
    \<and> (\<forall>j. j \<notin> set idx \<longrightarrow> a1 ! j = a ! j \<and> b1 ! j = b ! j)
    \<and> snd rs1 = snd rs @ replicate (2 * length idx) RandomSample"
proof (induction idx arbitrary: a b rs)
  case Nil
  then show ?case by simp
next
  case (Cons i idx)
  obtain av rs1 where av: "shape_draw lib lmbd rs = Inr (av, rs1)" "1 \<le> av"
    "snd rs1 = snd rs @ [RandomSample]"
    using shape_draw_result[OF ok l, of rs] by blast
  obtain bv rs2 where bv: "shape_draw lib lmbd rs1 = Inr (bv, rs2)" "1 \<le> bv"
    "snd rs2 = snd rs1 @ [RandomSample]"
    using shape_draw_result[OF ok l, of rs1] by blast
  obtain a1 b1 rs3 where r:
    "canard_shapes lib lmbd idx (a[i := av]) (b[i := bv]) rs2 = Inr (a1, b1, rs3)"
    "length a1 = length (a[i := av])" "length b1 = length (b[i := bv])"
    "(\<forall>v\<in>set (a[i := av]). 1 \<le> v) \<longrightarrow> (\<forall>v\<in>set a1. 1 \<le> v)"
    "(\<forall>v\<in>set (b[i := bv]). 1 \<le> v) \<longrightarrow> (\<forall>v\<in>set b1. 1 \<le> v)"
    "\<forall>j. j \<notin> set idx \<longrightarrow> a1 ! j = (a[i := av]) ! j \<and> b1 ! j = (b[i := bv]) ! j"
    "snd rs3 = snd rs2 @ replicate (2 * length idx) RandomSample"
    using Cons[of "a[i := av]" "b[i := bv]" rs2] by blast
  have "canard_shapes lib lmbd (i # idx) a b rs = Inr (a1, b1, rs3)"
    using av(1) bv(1) r(1) by simp
  moreover have "length a1 = length a" "length b1 = length b" using r(2,3) by simp_all
  moreover have "(\<forall>v\<in>set a. 1 \<le> v) \<longrightarrow> (\<forall>v\<in>set a1. 1 \<le> v)"
  proof
    assume "\<forall>v\<in>set a. 1 \<le> v"
    then have "\<forall>v\<in>set (a[i := av]). 1 \<le> v"
      using av(2) set_update_subset_insert[of a i av] by auto
    then show "\<forall>v\<in>set a1. 1 \<le> v" using r(4) by blast
  qed
  moreover have "(\<forall>v\<in>set b. 1 \<le> v) \<longrightarrow> (\<forall>v\<in>set b1. 1 \<le> v)"
  proof
    assume "\<forall>v\<in>set b. 1 \<le> v"
    then have "\<forall>v\<in>set (b[i := bv]). 1 \<le> v"
      using bv(2) set_update_subset_insert[of b i bv] by auto
    then show "\<forall>v\<in>set b1. 1 \<le> v" using r(5) by blast
  qed
  moreover have "\<forall>j. j \<notin> set (i # idx) \<longrightarrow> a1 ! j = a ! j \<and> b1 ! j = b ! j"
    using r(6) by auto
  moreover have "snd rs3 = snd rs @ replicate (2 * length (i # idx)) RandomSample"
    using av(3) bv(3) r(7) by (simp add: replicate_append_same)
  ultimately show ?case by blast
qed


subsection \<open>\<^verbatim>\<open>canard\<close>: the examples of a cluster\<close>

lemma canard_params_result:
  assumes ok: "library_ok lib" and n: "1 < n" "n \<le> 2 ^ 53"
    and l: "1 \<le> lmbd" "lmbd \<le> 2 ^ 1023" and e: "0 \<le> eps" "eps \<le> 1"
  shows "\<exists>idx a b rs1. canard_params lib rs n lmbd eps = Inr (idx, a, b, rs1)
    \<and> controlled_size n eps = Inr (int (length idx))
    \<and> distinct idx \<and> (\<forall>i\<in>set idx. i < nat n)
    \<and> length a = nat n \<and> length b = nat n
    \<and> (\<forall>v\<in>set a. 1 \<le> v) \<and> (\<forall>v\<in>set b. 1 \<le> v)
    \<and> (\<forall>j<nat n. j \<notin> set idx \<longrightarrow> a ! j = 1 \<and> b ! j = 1)
    \<and> snd rs1 = snd rs @ [Choice (nat n) (length idx)]
         @ replicate (2 * length idx) RandomSample"
proof -
  have n0: "0 \<le> n" using n by simp
  obtain sz where sz: "controlled_size n eps = Inr sz" "0 \<le> sz" "sz \<le> n"
    using controlled_size_range[OF n0 n(2) e] by blast
  obtain idx g1 where I: "gen_choice lib (fst rs) (nat n) (nat sz) = (idx, g1)" by fastforce
  define rs1 where "rs1 = (g1, snd rs @ [Choice (nat n) (nat sz)])"
  have c: "rs_choice lib rs n sz = Inr (idx, rs1)" using sz I by (simp add: rs_choice_def rs1_def)
  have le: "nat sz \<le> nat n" using sz by simp
  have il: "length idx = nat sz" using lib_choice(1)[OF ok le, of "fst rs"] I by simp
  have id: "distinct idx" using lib_choice(2)[OF ok le, of "fst rs"] I by simp
  have ir: "\<forall>i\<in>set idx. i < nat n" using lib_choice(3)[OF ok le, of "fst rs"] I by simp
  obtain a b rs2 where s:
    "canard_shapes lib lmbd idx (replicate (nat n) 1) (replicate (nat n) 1) rs1 = Inr (a, b, rs2)"
    "length a = length (replicate (nat n) (1::rat))" "length b = length (replicate (nat n) (1::rat))"
    "(\<forall>v\<in>set (replicate (nat n) (1::rat)). 1 \<le> v) \<longrightarrow> (\<forall>v\<in>set a. 1 \<le> v)"
    "(\<forall>v\<in>set (replicate (nat n) (1::rat)). 1 \<le> v) \<longrightarrow> (\<forall>v\<in>set b. 1 \<le> v)"
    "\<forall>j. j \<notin> set idx \<longrightarrow> a ! j = replicate (nat n) (1::rat) ! j \<and> b ! j = replicate (nat n) (1::rat) ! j"
    "snd rs2 = snd rs1 @ replicate (2 * length idx) RandomSample"
    using canard_shapes_result[OF ok l, of idx "replicate (nat n) 1" "replicate (nat n) 1" rs1]
    by blast
  have p: "canard_params lib rs n lmbd eps = Inr (idx, a, b, rs2)"
    using sz(1) c s(1) by (simp add: canard_params_def)
  have szl: "controlled_size n eps = Inr (int (length idx))" using sz(1,2) il by simp
  have la: "length a = nat n" "length b = nat n" using s(2,3) by simp_all
  have pa: "\<forall>v\<in>set a. 1 \<le> v" using s(4) by simp
  have pb: "\<forall>v\<in>set b. 1 \<le> v" using s(5) by simp
  have un: "\<forall>j<nat n. j \<notin> set idx \<longrightarrow> a ! j = 1 \<and> b ! j = 1" using s(6) by simp
  have lg: "snd rs2 = snd rs @ [Choice (nat n) (length idx)] @ replicate (2 * length idx) RandomSample"
    using s(7) il by (simp add: rs1_def)
  show ?thesis using p szl id ir la pa pb un lg by blast
qed

lemma canard_example_result:
  assumes ok: "library_ok lib" and c: "1 < c" "c \<le> 2 ^ 53"
    and sh: "\<forall>p\<in>set shapes. 0 < fst p \<and> 0 < snd p"
  shows "\<exists>row rs1. canard_example lib (bin_edges c) (categories c) shapes rs = Inr (row, rs1)
    \<and> length row = length shapes
    \<and> (\<forall>v\<in>set row. \<forall>k. v = Some k \<longrightarrow> 0 \<le> k \<and> k < c)
    \<and> (beta_positive lib \<longrightarrow> (\<forall>v\<in>set row. v \<noteq> None))
    \<and> snd rs1 = snd rs @ replicate (length shapes) Beta"
  using sh
proof (induction shapes arbitrary: rs)
  case Nil
  then show ?case by simp
next
  case (Cons p shapes)
  obtain aj bj where p: "p = (aj, bj)" by (cases p)
  have pos: "0 < aj" "0 < bj" using Cons.prems p by simp_all
  obtain x g1 where x: "gen_beta lib (fst rs) aj bj = (x, g1)" by fastforce
  define rs1 where "rs1 = (g1, snd rs @ [Beta])"
  have b: "rs_beta lib rs aj bj = Inr (x, rs1)" using pos x by (simp add: rs_beta_def rs1_def)
  have x1: "x \<le> 1" using lib_beta(2)[OF ok, of "fst rs" aj bj] x by simp
  obtain v where v: "pd_cut (bin_edges c) (categories c) x = Inr v"
    "v \<noteq> None \<longleftrightarrow> 0 < x \<and> x \<le> 1" "\<forall>k. v = Some k \<longrightarrow> 0 \<le> k \<and> k < c"
    using pd_cut_bin_edges[OF c, of x] by blast
  have "\<forall>p\<in>set shapes. 0 < fst p \<and> 0 < snd p" using Cons.prems by simp
  then obtain row rs2 where r:
    "canard_example lib (bin_edges c) (categories c) shapes rs1 = Inr (row, rs2)"
    "length row = length shapes"
    "\<forall>v\<in>set row. \<forall>k. v = Some k \<longrightarrow> 0 \<le> k \<and> k < c"
    "beta_positive lib \<longrightarrow> (\<forall>v\<in>set row. v \<noteq> None)"
    "snd rs2 = snd rs1 @ replicate (length shapes) Beta"
    using Cons.IH[of rs1] by blast
  have "canard_example lib (bin_edges c) (categories c) (p # shapes) rs = Inr (v # row, rs2)"
    using p b v(1) r(1) by simp
  moreover have "length (v # row) = length (p # shapes)" using r(2) by simp
  moreover have "\<forall>w\<in>set (v # row). \<forall>k. w = Some k \<longrightarrow> 0 \<le> k \<and> k < c"
    using v(3) r(3) by simp
  moreover have "beta_positive lib \<longrightarrow> (\<forall>w\<in>set (v # row). w \<noteq> None)"
  proof
    assume bp: "beta_positive lib"
    then have "0 < x" using x unfolding beta_positive_def by (metis fst_conv)
    then have "v \<noteq> None" using v(2) x1 by simp
    then show "\<forall>w\<in>set (v # row). w \<noteq> None" using r(4) bp by simp
  qed
  moreover have "snd rs2 = snd rs @ replicate (length (p # shapes)) Beta"
    using r(5) by (simp add: rs1_def replicate_append_same)
  ultimately show ?case by blast
qed

lemma canard_examples_result:
  assumes ok: "library_ok lib" and c: "1 < c" "c \<le> 2 ^ 53"
    and sh: "\<forall>p\<in>set shapes. 0 < fst p \<and> 0 < snd p"
  shows "\<exists>rows rs1. canard_examples lib m (bin_edges c) (categories c) shapes rs = Inr (rows, rs1)
    \<and> length rows = m
    \<and> (\<forall>row\<in>set rows. length row = length shapes
          \<and> (\<forall>v\<in>set row. \<forall>k. v = Some k \<longrightarrow> 0 \<le> k \<and> k < c)
          \<and> (beta_positive lib \<longrightarrow> (\<forall>v\<in>set row. v \<noteq> None)))
    \<and> snd rs1 = snd rs @ replicate (m * length shapes) Beta"
proof (induction m arbitrary: rs)
  case 0
  then show ?case by simp
next
  case (Suc m)
  obtain row rs1 where row:
    "canard_example lib (bin_edges c) (categories c) shapes rs = Inr (row, rs1)"
    "length row = length shapes"
    "\<forall>v\<in>set row. \<forall>k. v = Some k \<longrightarrow> 0 \<le> k \<and> k < c"
    "beta_positive lib \<longrightarrow> (\<forall>v\<in>set row. v \<noteq> None)"
    "snd rs1 = snd rs @ replicate (length shapes) Beta"
    using canard_example_result[OF ok c sh, of rs] by blast
  obtain rows rs2 where rows:
    "canard_examples lib m (bin_edges c) (categories c) shapes rs1 = Inr (rows, rs2)"
    "length rows = m"
    "\<forall>row\<in>set rows. length row = length shapes
          \<and> (\<forall>v\<in>set row. \<forall>k. v = Some k \<longrightarrow> 0 \<le> k \<and> k < c)
          \<and> (beta_positive lib \<longrightarrow> (\<forall>v\<in>set row. v \<noteq> None))"
    "snd rs2 = snd rs1 @ replicate (m * length shapes) Beta"
    using Suc[of rs1] by blast
  have "canard_examples lib (Suc m) (bin_edges c) (categories c) shapes rs = Inr (row # rows, rs2)"
    using row(1) rows(1) by simp
  moreover have "length (row # rows) = Suc m" using rows(2) by simp
  moreover have "\<forall>r\<in>set (row # rows). length r = length shapes
          \<and> (\<forall>v\<in>set r. \<forall>k. v = Some k \<longrightarrow> 0 \<le> k \<and> k < c)
          \<and> (beta_positive lib \<longrightarrow> (\<forall>v\<in>set r. v \<noteq> None))"
    using row(2,3,4) rows(3) by simp
  moreover have "snd rs2 = snd rs @ replicate (Suc m * length shapes) Beta"
    using row(5) rows(4) by (simp add: replicate_add)
  ultimately show ?case by blast
qed


subsection \<open>\<^verbatim>\<open>canard\<close> on valid inputs\<close>

lemma blocks_shift:
  "concat (map (\<lambda>i. replicate (nat ((m # rate) ! i)) (q + int i)) [0..<Suc (length rate)])
   = replicate (nat m) q
     @ concat (map (\<lambda>i. replicate (nat (rate ! i)) (q + 1 + int i)) [0..<length rate])"
proof -
  have "map (\<lambda>i. replicate (nat ((m # rate) ! i)) (q + int i)) [0..<Suc (length rate)]
    = replicate (nat m) q # map (\<lambda>i. replicate (nat (rate ! i)) (q + int (Suc i))) [0..<length rate]"
    by (simp only: map_upt_Suc) simp
  moreover have "(\<lambda>i. replicate (nat (rate ! i)) (q + int (Suc i)))
    = (\<lambda>i. replicate (nat (rate ! i)) (q + 1 + int i))"
    by (rule ext) (simp add: algebra_simps)
  ultimately show ?thesis by simp
qed

lemma zip_shapes_positive:
  assumes "\<forall>v\<in>set a. (1::rat) \<le> v" "\<forall>v\<in>set b. (1::rat) \<le> v"
  shows "\<forall>p\<in>set (zip a b). 0 < fst p \<and> 0 < snd p"
proof
  fix p assume "p \<in> set (zip a b)"
  then have "fst p \<in> set a" "snd p \<in> set b"
    by (metis prod.collapse set_zip_leftD, metis prod.collapse set_zip_rightD)
  then have "1 \<le> fst p" "1 \<le> snd p" using assms by simp_all
  then show "0 < fst p \<and> 0 < snd p" by simp
qed

lemma canard_clusters_result:
  assumes ok: "library_ok lib" and n: "1 < n" "n \<le> 2 ^ 53" and c: "1 < c" "c \<le> 2 ^ 53"
    and l: "1 \<le> lmbd" "lmbd \<le> 2 ^ 1023" and e: "0 \<le> eps" "eps \<le> 1"
    and sz: "controlled_size n eps = Inr sz"
  shows "\<exists>X y rs1. canard_clusters lib rs n c lmbd eps q rate = Inr (X, y, rs1)
    \<and> length X = length y
    \<and> y = concat (map (\<lambda>i. replicate (nat (rate ! i)) (q + int i)) [0..<length rate])
    \<and> (\<forall>row\<in>set X. length row = nat n
          \<and> (\<forall>v\<in>set row. \<forall>k. v = Some k \<longrightarrow> 0 \<le> k \<and> k < c)
          \<and> (beta_positive lib \<longrightarrow> (\<forall>v\<in>set row. v \<noteq> None)))
    \<and> snd rs1 = snd rs @ canard_draw_order n sz rate"
proof (induction rate arbitrary: rs q)
  case Nil
  then show ?case by (simp add: canard_draw_order_def)
next
  case (Cons m rate)
  obtain idx a b rs1 where p: "canard_params lib rs n lmbd eps = Inr (idx, a, b, rs1)"
    "controlled_size n eps = Inr (int (length idx))"
    "length a = nat n" "length b = nat n"
    "\<forall>v\<in>set a. 1 \<le> v" "\<forall>v\<in>set b. 1 \<le> v"
    "snd rs1 = snd rs @ [Choice (nat n) (length idx)] @ replicate (2 * length idx) RandomSample"
    using canard_params_result[OF ok n l e, of rs] by blast
  have szi: "nat sz = length idx" using p(2) sz by simp
  have shp: "\<forall>p\<in>set (zip a b). 0 < fst p \<and> 0 < snd p" by (rule zip_shapes_positive[OF p(5,6)])
  have zl: "length (zip a b) = nat n" using p(3,4) by simp
  obtain rows rs2 where r:
    "canard_examples lib (nat m) (bin_edges c) (categories c) (zip a b) rs1 = Inr (rows, rs2)"
    "length rows = nat m"
    "\<forall>row\<in>set rows. length row = length (zip a b)
          \<and> (\<forall>v\<in>set row. \<forall>k. v = Some k \<longrightarrow> 0 \<le> k \<and> k < c)
          \<and> (beta_positive lib \<longrightarrow> (\<forall>v\<in>set row. v \<noteq> None))"
    "snd rs2 = snd rs1 @ replicate (nat m * length (zip a b)) Beta"
    using canard_examples_result[OF ok c shp, of "nat m" rs1] by blast
  obtain X y rs3 where rest:
    "canard_clusters lib rs2 n c lmbd eps (q + 1) rate = Inr (X, y, rs3)"
    "length X = length y"
    "y = concat (map (\<lambda>i. replicate (nat (rate ! i)) (q + 1 + int i)) [0..<length rate])"
    "\<forall>row\<in>set X. length row = nat n
          \<and> (\<forall>v\<in>set row. \<forall>k. v = Some k \<longrightarrow> 0 \<le> k \<and> k < c)
          \<and> (beta_positive lib \<longrightarrow> (\<forall>v\<in>set row. v \<noteq> None))"
    "snd rs3 = snd rs2 @ canard_draw_order n sz rate"
    using Cons[of rs2 "q + 1"] by blast
  have "canard_clusters lib rs n c lmbd eps q (m # rate)
      = Inr (rows @ X, replicate (length rows) q @ y, rs3)"
    using p(1) r(1) rest(1) by simp
  moreover have "length (rows @ X) = length (replicate (length rows) q @ y)" using rest(2) by simp
  moreover have "replicate (length rows) q @ y
      = concat (map (\<lambda>i. replicate (nat ((m # rate) ! i)) (q + int i)) [0..<length (m # rate)])"
    using blocks_shift[of m rate q] r(2) rest(3) by simp
  moreover have "\<forall>row\<in>set (rows @ X). length row = nat n
          \<and> (\<forall>v\<in>set row. \<forall>k. v = Some k \<longrightarrow> 0 \<le> k \<and> k < c)
          \<and> (beta_positive lib \<longrightarrow> (\<forall>v\<in>set row. v \<noteq> None))"
    using r(3) rest(4) zl by auto
  moreover have "snd rs3 = snd rs @ canard_draw_order n sz (m # rate)"
    using p(7) r(4) rest(5) szi zl by (simp add: canard_draw_order_def canard_cluster_draws_def)
  ultimately show ?case by blast
qed

lemma canard_result:
  assumes ok: "library_ok lib" and seed: "seed_ok random_state"
    and v: "canard_valid n c rate l ep"
  shows "\<exists>X y rs sz. canard lib entropy (PyInt n) (PyInt c) rate (PyInt l) (PyFloat ep) random_state
        = Inr (X, y, rs)
    \<and> dataset_shape n rate X y
    \<and> (\<forall>row\<in>set X. \<forall>v\<in>set row. \<forall>k. v = Some k \<longrightarrow> 0 \<le> k \<and> k < c)
    \<and> (beta_positive lib \<longrightarrow> (\<forall>row\<in>set X. \<forall>v\<in>set row. v \<noteq> None))
    \<and> controlled_size n ep = Inr sz \<and> 0 \<le> sz \<and> sz \<le> n
    \<and> snd rs = canard_draw_order n sz rate"
proof -
  have n: "1 < n" "n \<le> 2 ^ 53" and c: "1 < c" "c \<le> 2 ^ 53"
    and pos: "\<forall>m\<in>set rate. 0 < m"
    and l: "1 \<le> l" "l \<le> 2 ^ 1023" and e: "0 \<le> ep" "ep \<le> 1"
    using v unfolding canard_valid_def by blast+
  obtain g where g: "resolve_random_state lib entropy random_state = Inr (g, [])"
    using resolve_random_state_ok[OF seed] by blast
  have n0: "0 \<le> n" using n by simp
  obtain sz where sz: "controlled_size n ep = Inr sz" "0 \<le> sz" "sz \<le> n"
    using controlled_size_range[OF n0 n(2) e] by blast
  obtain X y rs where r: "canard_clusters lib (g, []) n c l ep 0 rate = Inr (X, y, rs)"
    "length X = length y"
    "y = concat (map (\<lambda>i. replicate (nat (rate ! i)) (0 + int i)) [0..<length rate])"
    "\<forall>row\<in>set X. length row = nat n
          \<and> (\<forall>v\<in>set row. \<forall>k. v = Some k \<longrightarrow> 0 \<le> k \<and> k < c)
          \<and> (beta_positive lib \<longrightarrow> (\<forall>v\<in>set row. v \<noteq> None))"
    "snd rs = snd (g, []) @ canard_draw_order n sz rate"
    using canard_clusters_result[OF ok n c l e sz(1), of "(g, [])" 0 rate] by blast
  have cn: "canard lib entropy (PyInt n) (PyInt c) rate (PyInt l) (PyFloat ep) random_state
        = Inr (X, y, rs)"
    using g n c l e r(1) by (simp add: canard_def)
  have yb: "y = label_blocks rate" using r(3) by (simp add: label_blocks_def)
  note sh = label_blocks_shape[OF pos]
  have rows: "\<forall>row\<in>set X. int (length row) = n" using r(4) n by auto
  have ds: "dataset_shape n rate X y"
    unfolding dataset_shape_def using r(2) rows sh unfolding yb by simp
  have rg: "\<forall>row\<in>set X. \<forall>v\<in>set row. \<forall>k. v = Some k \<longrightarrow> 0 \<le> k \<and> k < c" using r(4) by blast
  have np: "beta_positive lib \<longrightarrow> (\<forall>row\<in>set X. \<forall>v\<in>set row. v \<noteq> None)" using r(4) by blast
  have lg: "snd rs = canard_draw_order n sz rate" using r(5) by simp
  show ?thesis using cn ds rg np sz lg by blast
qed


subsection \<open>Runs on the constant library\<close>

lemma library_ok_constant:
  assumes "0 \<le> x" "x \<le> 1"
  shows "library_ok (constant_library x)"
  unfolding library_ok_def constant_library_def using assms by simp


lemma fl_half: "fl (1 / 2) = 1 / 2"
  using fl_pow2[of "- 1"] by simp

lemma bin_edges_2: "bin_edges 2 = [0, 1 / 2, 1]"
proof -
  have "[0..2] = [0, 1, 2::int]" by (simp add: upto_rec1)
  then show ?thesis by (simp add: bin_edges_def fl_zero fl_half fl_one)
qed

lemma categories_2: "categories 2 = [0, 1]"
  by (simp add: categories_def upto_rec1)

lemma pd_cut_2:
  "pd_cut [0, 1 / 2, 1] [0, 1] 0 = Inr None"
  "pd_cut [0, 1 / 2, 1] [0, 1] (3 / 4) = Inr (Some 1)"
  by (simp_all add: pd_cut_def strictly_increasing_def)

lemma controlled_size_2_half: "controlled_size 2 (1 / 2) = Inr 1"
  using float_of_int_exact[of 2]
  by (simp add: controlled_size_def fl_half fl_one int_of_float_def)

lemma float_of_int_1: "float_of_int 1 = Inr 1"
  using float_of_int_exact[of 1] by simp

lemma catbird_run:
  "catbird (constant_library (1 / 2)) 0 (PyInt 2) [1] [2] (PyFloat 1) (PyFloat (1 / 5)) (IntSeed 0)
   = Inr ([[1, 0], [1, 0]], [0, 0],
          (6, [Normal 1 1, Choice 2 1, Normal 1 1, Binomial 2, Normal 1 1, Binomial 2]))"
  by (simp add: catbird_def resolve_random_state_def catbird_cluster_def catbird_example_def
      rs_normal_def rs_choice_def rs_binomial_def constant_library_def discretize_def
      eval_nat_numeral)

lemma canard_run:
  "canard (constant_library (3 / 4)) 0 (PyInt 2) (PyInt 2) [2] (PyInt 1) (PyFloat (1 / 2)) (IntSeed 0)
   = Inr ([[Some 1, Some 1], [Some 1, Some 1]], [0, 0],
          (7, [Choice 2 1, RandomSample, RandomSample, Beta, Beta, Beta, Beta]))"
  by (simp add: canard_def resolve_random_state_def canard_params_def shape_draw_def
      rs_random_sample_def rs_choice_def rs_beta_def constant_library_def
      controlled_size_2_half float_of_int_1 fl_zero fl_one bin_edges_2 categories_2 pd_cut_2
      eval_nat_numeral)

lemma canard_run_zero_draw:
  "canard (constant_library 0) 0 (PyInt 2) (PyInt 2) [1] (PyInt 1) (PyFloat 1) (IntSeed 0)
   = Inr ([[None, None]], [0], (3, [Choice 2 0, Beta, Beta]))"
  using controlled_size_eps_one[of 2]
  by (simp add: canard_def resolve_random_state_def canard_params_def shape_draw_def
      rs_random_sample_def rs_choice_def rs_beta_def constant_library_def
      bin_edges_2 categories_2 pd_cut_2 eval_nat_numeral)


subsection \<open>The claims on the shape and the entries of the dataset\<close>

text \<open>
  C1. On every valid input, with a library that keeps its contract, \<^verbatim>\<open>catbird\<close> and
  \<^verbatim>\<open>canard\<close> return \<open>(X, y)\<close> with \<open>len(X) = len(y) = sum(rate)\<close>, every row of length
  \<open>n_feat\<close>, and \<open>y\<close> the label blocks in input order: \<open>y\<close> is non-decreasing, takes
  exactly the values \<open>0, \<dots>, len(rate) - 1\<close> and holds \<open>i\<close> exactly \<open>rate[i]\<close> times.
\<close>

theorem generators_return_dataset_shape:
  assumes "library_ok lib" "seed_ok random_state"
  shows "(catbird_valid n feat_sig rate l ep \<longrightarrow>
           (\<exists>X y rs. catbird lib entropy (PyInt n) feat_sig rate (PyFloat l) (PyFloat ep) random_state
                = Inr (X, y, rs) \<and> dataset_shape n rate X y))
       \<and> (canard_valid n c rate lm ep \<longrightarrow>
           (\<exists>X y rs. canard lib entropy (PyInt n) (PyInt c) rate (PyInt lm) (PyFloat ep) random_state
                = Inr (X, y, rs) \<and> dataset_shape n rate X y))"
proof (intro conjI impI)
  assume v: "catbird_valid n feat_sig rate l ep"
  show "\<exists>X y rs. catbird lib entropy (PyInt n) feat_sig rate (PyFloat l) (PyFloat ep) random_state
                = Inr (X, y, rs) \<and> dataset_shape n rate X y"
    using catbird_result[OF assms v, of entropy] by blast
next
  assume v: "canard_valid n c rate lm ep"
  show "\<exists>X y rs. canard lib entropy (PyInt n) (PyInt c) rate (PyInt lm) (PyFloat ep) random_state
                = Inr (X, y, rs) \<and> dataset_shape n rate X y"
    using canard_result[OF assms v, of entropy] by blast
qed

theorem generators_return_dataset_shape_witness:
  "library_ok (constant_library (3 / 4)) \<and> seed_ok (IntSeed 0 :: nat random_state_arg)
   \<and> catbird_valid 2 [1] [2] 1 (1 / 5) \<and> canard_valid 2 2 [2] 1 (1 / 2)
   \<and> dataset_shape 2 [2] [[1, 0], [1, 0 :: int]] [0, 0]
   \<and> dataset_shape 2 [2] [[Some 1, Some 1], [Some 1, Some (1 :: int)]] [0, 0]"
proof -
  have ok: "library_ok (constant_library (3 / 4))" by (rule library_ok_constant) simp_all
  have seed: "seed_ok (IntSeed 0 :: nat random_state_arg)" by (simp add: seed_ok_def)
  have v1: "catbird_valid 2 [1] [2] 1 (1 / 5)" by (simp add: catbird_valid_def)
  have v2: "canard_valid 2 2 [2] 1 (1 / 2)" by (simp add: canard_valid_def)
  note t1 = generators_return_dataset_shape[OF ok seed,
      where n = 2 and feat_sig = "[1]" and rate = "[2]" and l = 1 and ep = "1 / 5" and entropy = 0]
  note t2 = generators_return_dataset_shape[OF ok seed,
      where n = 2 and c = 2 and rate = "[2]" and lm = 1 and ep = "1 / 2" and entropy = 0]
  have c1: "catbird (constant_library (3 / 4)) 0 (PyInt 2) [1] [2] (PyFloat 1) (PyFloat (1 / 5)) (IntSeed 0)
   = Inr ([[1, 0], [1, 0]], [0, 0],
          (6, [Normal 1 1, Choice 2 1, Normal 1 1, Binomial 2, Normal 1 1, Binomial 2]))"
    by (simp add: catbird_def resolve_random_state_def catbird_cluster_def catbird_example_def
      rs_normal_def rs_choice_def rs_binomial_def constant_library_def discretize_def
      eval_nat_numeral)
  have "dataset_shape 2 [2] [[1, 0], [1, 0 :: int]] [0, 0]"
    using t1 v1 unfolding c1 by simp
  moreover have "dataset_shape 2 [2] [[Some 1, Some 1], [Some 1, Some (1 :: int)]] [0, 0]"
    using t2 v2 unfolding canard_run by simp
  ultimately show ?thesis using ok seed v1 v2 by simp
qed

text \<open>
  C2. The entries of \<^verbatim>\<open>canard\<close>'s matrix are not always categories: a Beta draw equal to
  0 lies in no bin (the lowest edge is excluded), so its entry is \<^verbatim>\<open>NaN\<close>, cast to an
  int64 that is no category. Here the library keeps its contract and the input is
  valid; both entries of the row have no category.
\<close>

theorem canard_zero_draw_entries:
  "canard (constant_library 0) 0 (PyInt 2) (PyInt 2) [1] (PyInt 1) (PyFloat 1) (IntSeed 0)
     = Inr ([[None, None]], [0], (3, [Choice 2 0, Beta, Beta]))
   \<and> (None :: int option) \<notin> Some ` {0..<2}"
  using canard_run_zero_draw by simp

text \<open>The library of that run keeps its contract, and the input is valid.\<close>

lemma zero_draw_input_valid:
  "library_ok (constant_library 0)" "seed_ok (IntSeed 0 :: nat random_state_arg)"
  "canard_valid 2 2 [1] 1 1"
  by (simp_all add: library_ok_constant seed_ok_def canard_valid_def)

text \<open>What does hold of the entries: \<^verbatim>\<open>catbird\<close>'s are bits.\<close>

lemma catbird_entries_binary:
  assumes "library_ok lib" "seed_ok random_state" "catbird_valid n feat_sig rate l ep"
  shows "\<exists>X y rs. catbird lib entropy (PyInt n) feat_sig rate (PyFloat l) (PyFloat ep) random_state
      = Inr (X, y, rs) \<and> (\<forall>row\<in>set X. \<forall>v\<in>set row. v = 0 \<or> v = 1)"
  using catbird_result[OF assms, of entropy] by blast




subsection \<open>Determinism given a seed\<close>

text \<open>
  C3. Given an int seed, the result of a generator is a function of the seed and the
  other arguments alone: it does not depend on the entropy a fresh \<^verbatim>\<open>RandomState()\<close>
  would read. The draws are made in the fixed order of \<open>catbird_draw_order\<close> and
  \<open>canard_draw_order\<close>: per cluster, first the structural parameters, then the draws of
  each example in sequence. \<^verbatim>\<open>get_rate\<close> takes no random source at all; it is a function
  of its three arguments.
\<close>

theorem generators_deterministic_given_seed:
  "catbird lib ea n_feat feat_sig rate lmbd eps (IntSeed s)
     = catbird lib eb n_feat feat_sig rate lmbd eps (IntSeed s)
   \<and> canard lib ea n_feat n_cat rate lmbd eps (IntSeed s)
     = canard lib eb n_feat n_cat rate lmbd eps (IntSeed s)
   \<and> (library_ok lib \<and> seed_ok random_state \<and> catbird_valid n feat_sig rate l ep \<longrightarrow>
        (\<exists>X y g. catbird lib ea (PyInt n) feat_sig rate (PyFloat l) (PyFloat ep) random_state
            = Inr (X, y, (g, catbird_draw_order n feat_sig rate))))
   \<and> (library_ok lib \<and> seed_ok random_state \<and> canard_valid n c rate lm ep \<longrightarrow>
        (\<exists>X y g sz. controlled_size n ep = Inr sz
          \<and> canard lib ea (PyInt n) (PyInt c) rate (PyInt lm) (PyFloat ep) random_state
            = Inr (X, y, (g, canard_draw_order n sz rate))))"
proof (intro conjI impI)
  show "catbird lib ea n_feat feat_sig rate lmbd eps (IntSeed s)
     = catbird lib eb n_feat feat_sig rate lmbd eps (IntSeed s)"
    by (simp add: catbird_def resolve_random_state_def)
  show "canard lib ea n_feat n_cat rate lmbd eps (IntSeed s)
     = canard lib eb n_feat n_cat rate lmbd eps (IntSeed s)"
    by (simp add: canard_def resolve_random_state_def)
next
  assume a: "library_ok lib \<and> seed_ok random_state \<and> catbird_valid n feat_sig rate l ep"
  then have ok: "library_ok lib" and seed: "seed_ok random_state"
    and v: "catbird_valid n feat_sig rate l ep" by simp_all
  obtain X y rs where r:
    "catbird lib ea (PyInt n) feat_sig rate (PyFloat l) (PyFloat ep) random_state = Inr (X, y, rs)"
    "snd rs = catbird_draw_order n feat_sig rate"
    using catbird_result[OF ok seed v, of ea] by blast
  have "rs = (fst rs, catbird_draw_order n feat_sig rate)" using r(2) by (cases rs) simp
  then show "\<exists>X y g. catbird lib ea (PyInt n) feat_sig rate (PyFloat l) (PyFloat ep) random_state
            = Inr (X, y, (g, catbird_draw_order n feat_sig rate))"
    using r(1) by metis
next
  assume a: "library_ok lib \<and> seed_ok random_state \<and> canard_valid n c rate lm ep"
  then have ok: "library_ok lib" and seed: "seed_ok random_state"
    and v: "canard_valid n c rate lm ep" by simp_all
  obtain X y rs sz where r:
    "canard lib ea (PyInt n) (PyInt c) rate (PyInt lm) (PyFloat ep) random_state = Inr (X, y, rs)"
    "controlled_size n ep = Inr sz"
    "snd rs = canard_draw_order n sz rate"
    using canard_result[OF ok seed v, of ea] by blast
  have "rs = (fst rs, canard_draw_order n sz rate)" using r(3) by (cases rs) simp
  then show "\<exists>X y g sz. controlled_size n ep = Inr sz
          \<and> canard lib ea (PyInt n) (PyInt c) rate (PyInt lm) (PyFloat ep) random_state
            = Inr (X, y, (g, canard_draw_order n sz rate))"
    using r(1,2) by metis
qed

theorem generators_deterministic_given_seed_witness:
  "library_ok (constant_library (3 / 4)) \<and> seed_ok (IntSeed 0 :: nat random_state_arg)
   \<and> catbird_valid 2 [1] [2] 1 (1 / 5) \<and> canard_valid 2 2 [2] 1 (1 / 2)
   \<and> catbird (constant_library (3 / 4)) 0 (PyInt 2) [1] [2] (PyFloat 1) (PyFloat (1 / 5)) (IntSeed 0)
     = catbird (constant_library (3 / 4)) 5 (PyInt 2) [1] [2] (PyFloat 1) (PyFloat (1 / 5)) (IntSeed 0)
   \<and> catbird_draw_order 2 [1] [2]
     = [Normal 1 1, Choice 2 1, Normal 1 1, Binomial 2, Normal 1 1, Binomial 2]
   \<and> canard_draw_order 2 1 [2] = [Choice 2 1, RandomSample, RandomSample, Beta, Beta, Beta, Beta]"
proof -
  have ok: "library_ok (constant_library (3 / 4))" by (rule library_ok_constant) simp_all
  have seed: "seed_ok (IntSeed 0 :: nat random_state_arg)" by (simp add: seed_ok_def)
  have v1: "catbird_valid 2 [1] [2] 1 (1 / 5)" by (simp add: catbird_valid_def)
  have v2: "canard_valid 2 2 [2] 1 (1 / 2)" by (simp add: canard_valid_def)
  have c1: "catbird (constant_library (3 / 4)) 0 (PyInt 2) [1] [2] (PyFloat 1) (PyFloat (1 / 5)) (IntSeed 0)
   = Inr ([[1, 0], [1, 0]], [0, 0],
          (6, [Normal 1 1, Choice 2 1, Normal 1 1, Binomial 2, Normal 1 1, Binomial 2]))"
    by (simp add: catbird_def resolve_random_state_def catbird_cluster_def catbird_example_def
      rs_normal_def rs_choice_def rs_binomial_def constant_library_def discretize_def
      eval_nat_numeral)
  note t1 = generators_deterministic_given_seed[where lib = "constant_library (3 / 4)"
      and random_state = "IntSeed 0" and ea = 0 and eb = 5 and s = 0
      and n_feat = "PyInt 2" and lmbd = "PyFloat 1" and eps = "PyFloat (1 / 5)"
      and n = 2 and feat_sig = "[1]" and rate = "[2]" and l = 1 and ep = "1 / 5"]
  note t2 = generators_deterministic_given_seed[where lib = "constant_library (3 / 4)"
      and random_state = "IntSeed 0" and ea = 0
      and n = 2 and c = 2 and rate = "[2]" and lm = 1 and ep = "1 / 2"]
  have d: "catbird (constant_library (3 / 4)) 0 (PyInt 2) [1] [2] (PyFloat 1) (PyFloat (1 / 5)) (IntSeed 0)
     = catbird (constant_library (3 / 4)) 5 (PyInt 2) [1] [2] (PyFloat 1) (PyFloat (1 / 5)) (IntSeed 0)"
    using t1 by blast
  have "\<exists>X y g. catbird (constant_library (3 / 4)) 0 (PyInt 2) [1] [2] (PyFloat 1) (PyFloat (1 / 5))
      (IntSeed 0) = Inr (X, y, (g, catbird_draw_order 2 [1] [2]))"
    using t1 ok seed v1 by blast
  then have o1: "catbird_draw_order 2 [1] [2]
     = [Normal 1 1, Choice 2 1, Normal 1 1, Binomial 2, Normal 1 1, Binomial 2]"
    unfolding c1 by simp
  have "\<exists>X y g sz. controlled_size 2 (1 / 2) = Inr sz
      \<and> canard (constant_library (3 / 4)) 0 (PyInt 2) (PyInt 2) [2] (PyInt 1) (PyFloat (1 / 2))
          (IntSeed 0) = Inr (X, y, (g, canard_draw_order 2 sz [2]))"
    using t2 ok seed v2 by blast
  then have o2: "canard_draw_order 2 1 [2]
      = [Choice 2 1, RandomSample, RandomSample, Beta, Beta, Beta, Beta]"
    unfolding canard_run controlled_size_2_half by auto
  show ?thesis using ok seed v1 v2 d o1 o2 by simp
qed


subsection \<open>The argument checks of \<^verbatim>\<open>canard\<close>\<close>
















end
